theory Spec2Isabelle
  imports Main "HOL-Library.AList"
begin

section \<open>Python values and exceptions\<close>

text \<open>
  The functions verified here are Python 2 (pyon).  The dynamically typed arguments of
  the event module (event type, origin, timestamps, keyword arguments) are modelled by the
  kinds of value they are called with: \<open>None\<close>, a string, an integer, a boolean.
\<close>

datatype pyval = PNone | PStr string | PInt int | PBool bool

text \<open>Python truthiness, the test behind \<open>if x:\<close>, \<open>x and y\<close> and \<open>x or y\<close>.\<close>

fun truthy :: "pyval \<Rightarrow> bool" where
  "truthy PNone = False"
| "truthy (PStr s) = (s \<noteq> [])"
| "truthy (PInt n) = (n \<noteq> 0)"
| "truthy (PBool b) = b"

text \<open>\<open>x or d\<close>: the first operand when it is truthy, the second otherwise.\<close>

definition py_or :: "pyval \<Rightarrow> pyval \<Rightarrow> pyval" where
  "py_or x d = (if truthy x then x else d)"

text \<open>\<open>str(x)\<close>, which is also what the format directive \<open>%s\<close> prints.\<close>

definition digit_char :: "nat \<Rightarrow> char" where
  "digit_char d = ''0123456789'' ! d"

function str_nat :: "nat \<Rightarrow> string" where
  "str_nat n = (if n < 10 then [digit_char n] else str_nat (n div 10) @ [digit_char (n mod 10)])"
  by pat_completeness auto
termination
  by (relation "measure id") auto

fun py_str :: "pyval \<Rightarrow> string" where
  "py_str PNone = ''None''"
| "py_str (PStr s) = s"
| "py_str (PInt i) = (if i < 0 then CHR ''-'' # str_nat (nat (- i)) else str_nat (nat i))"
| "py_str (PBool b) = (if b then ''True'' else ''False'')"

text \<open>
  \<open>x < k\<close> for an integer literal \<open>k\<close>, with the ordering of CPython 2 between values
  of different types: \<open>None\<close> is smaller than every other value, a number is smaller
  than a string, and a boolean is the number 0 or 1.
\<close>

fun py_lt_int :: "pyval \<Rightarrow> int \<Rightarrow> bool" where
  "py_lt_int PNone k = True"
| "py_lt_int (PInt n) k = (n < k)"
| "py_lt_int (PStr s) k = False"
| "py_lt_int (PBool b) k = ((if b then 1 else 0) < k)"

text \<open>
  The exceptions that the modelled code raises or lets through, without their messages:
  Python's own, pyon's \<open>NotFound\<close> and \<open>BadRequest\<close> (\<open>pyon.core.exception\<close>), and
  the \<open>ResourceNotFound\<close> of the CouchDB client library (\<open>couchdb.http\<close>).
\<close>

datatype py_error =
    AssertionError
  | KeyError
  | TypeError
  | NotFound
  | BadRequest
  | ResourceNotFound
  | OtherError string

section \<open>pyon.event.event: topics\<close>

text \<open>
  \<open>EventPublisher._topic(self, origin)\<close>, with \<open>self.event_type\<close> as first argument:
  \<^verbatim>\<open>assert self.event_type and origin\<close>, then
  \<^verbatim>\<open>return "%s.%s" % (str(self.event_type), str(origin))\<close>.
\<close>

definition EventPublisher_topic :: "pyval \<Rightarrow> pyval \<Rightarrow> py_error + string" where
  "EventPublisher_topic event_type origin =
     (if truthy event_type \<and> truthy origin
      then Inr (py_str event_type @ ''.'' @ py_str origin)
      else Inl AssertionError)"

text \<open>
  \<open>EventSubscriber._topic(self, origin)\<close>:
  \<^verbatim>\<open>event_type = self.event_type or "*"\<close>, \<^verbatim>\<open>origin = origin or "#"\<close>,
  \<^verbatim>\<open>return "%s.%s" % (event_type, origin)\<close>.
\<close>

definition EventSubscriber_topic :: "pyval \<Rightarrow> pyval \<Rightarrow> string" where
  "EventSubscriber_topic self_event_type origin =
     (let event_type = py_or self_event_type (PStr ''*'');
          origin = py_or origin (PStr ''#'')
      in py_str event_type @ ''.'' @ py_str origin)"

section \<open>pyon.event.event: EventRepository.find\_events\<close>

text \<open>
  \<open>find_events\<close> computes the arguments of one call of the data store's
  \<open>find_by_view\<close> and returns what that call returns.  The data store is a collaborator,
  so the model returns the call itself, together with the warnings logged on the way.
\<close>

record find_by_view_call =
  design_name :: string
  view_name :: string
  start_key :: "pyval list"
  end_key :: "pyval list"
  id_only :: bool
  kwargs :: "string \<rightharpoonup> pyval"

text \<open>\<open>kwargs.get(k, d)\<close>.\<close>

definition dict_get :: "(string \<rightharpoonup> pyval) \<Rightarrow> string \<Rightarrow> pyval \<Rightarrow> pyval" where
  "dict_get d k dflt = (case d k of None \<Rightarrow> dflt | Some v \<Rightarrow> v)"

text \<open>
  The \<open>if\<close>/\<open>elif\<close> chain that picks the view and the key prefix; in the last branch
  the limit is forced and a warning is logged.  The result is
  (view name, start key, end key, kwargs, warnings).
\<close>

definition select_view ::
  "pyval \<Rightarrow> pyval \<Rightarrow> pyval \<Rightarrow> pyval \<Rightarrow> (string \<rightharpoonup> pyval)
     \<Rightarrow> string \<times> pyval list \<times> pyval list \<times> (string \<rightharpoonup> pyval) \<times> string list" where
  "select_view event_type origin start_ts end_ts kw =
     (if truthy origin \<and> truthy event_type then
        (''by_origintype'', [origin, event_type], [origin, event_type], kw, [])
      else if truthy origin then
        (''by_origin'', [origin], [origin], kw, [])
      else if truthy event_type then
        (''by_type'', [event_type], [event_type], kw, [])
      else if truthy start_ts \<or> truthy end_ts then
        (''by_time'', [], [], kw, [])
      else if py_lt_int (dict_get kw ''limit'' (PInt 0)) 1 then
        (''by_time'', [], [], kw(''limit'' \<mapsto> PInt 100),
         [''Querying all events, no limit given. Set limit to 100''])
      else
        (''by_time'', [], [], kw, []))"

definition find_events ::
  "pyval \<Rightarrow> pyval \<Rightarrow> pyval \<Rightarrow> pyval \<Rightarrow> (string \<rightharpoonup> pyval)
     \<Rightarrow> find_by_view_call \<times> string list" where
  "find_events event_type origin start_ts end_ts kw =
     (case select_view event_type origin start_ts end_ts kw of
        (view, start_key0, end_key0, kw', warnings) \<Rightarrow>
          (let start_key1 = (if truthy start_ts then start_key0 @ [start_ts] else start_key0);
               end_key1 = (if truthy end_ts then end_key0 @ [end_ts] else end_key0)
           in (\<lparr> design_name = ''event'', view_name = view,
                  start_key = start_key1, end_key = end_key1,
                  id_only = False, kwargs = kw' \<rparr>, warnings)))"

section \<open>pyon.util.pool: the identifier pool\<close>

text \<open>
  Modelled from the spec: the class \<open>IDPool\<close> of \<open>pyon.util.pool\<close>, which
  \<open>messaging.py\<close> imports and which is not among the sources.  The spec (4.1) gives its
  contract: allocation returns the smallest previously released identifier if there is
  one and otherwise mints a new one; releasing an identifier that is not currently
  allocated fails fast.  The field \<open>ids_free\<close> is the attribute \<open>_ids_free\<close> that
  \<open>NodeB.on_channel_request_close\<close> reaches into.  Identifiers are small non-negative
  integers; a new one is the number of identifiers minted so far.
\<close>

record IDPool =
  ids_free :: "nat list"
  ids_inuse :: "nat list"
  minted :: nat

text \<open>Modelled from the spec: a new pool has no identifier allocated or released.\<close>

definition IDPool_init :: IDPool where
  "IDPool_init = \<lparr> ids_free = [], ids_inuse = [], minted = 0 \<rparr>"

text \<open>
  Modelled from the spec: \<open>IDPool.get_id\<close>, "returns the smallest previously-released id
  if one exists, otherwise mints a new one".
\<close>

definition get_id :: "IDPool \<Rightarrow> nat \<times> IDPool" where
  "get_id p =
     (if ids_free p \<noteq> [] then
        (let i = Min (set (ids_free p))
         in (i, p\<lparr> ids_free := removeAll i (ids_free p), ids_inuse := i # ids_inuse p \<rparr>))
      else
        (let i = minted p
         in (i, p\<lparr> ids_inuse := i # ids_inuse p, minted := Suc (minted p) \<rparr>)))"

text \<open>
  Modelled from the spec: \<open>IDPool.release_id\<close>, "releasing an id that is not currently
  allocated is a programming error (fails fast)".
\<close>

definition release_id :: "IDPool \<Rightarrow> nat \<Rightarrow> py_error + IDPool" where
  "release_id p i =
     (if i \<in> set (ids_inuse p)
      then Inr (p\<lparr> ids_inuse := removeAll i (ids_inuse p), ids_free := i # ids_free p \<rparr>)
      else Inl AssertionError)"

section \<open>pyon.net.messaging: NodeB, the blocking node\<close>

text \<open>
  Channel objects live in a store and are named by reference, since the node's pool and
  the callers share them and a caller may change a pooled channel's
  \<open>_queue_auto_delete\<close> while the pool holds it.  Of a channel the node reads two
  attributes: \<open>_queue_auto_delete\<close> and the number of its transport channel
  (\<open>get_channel_id()\<close>, which is \<open>_amq_chan.channel_number\<close>).
\<close>

type_synonym ref = nat

record channel_obj =
  queue_auto_delete :: bool
  channel_number :: nat

text \<open>
  The argument \<open>ch_type\<close> is a channel class; the node compares it with
  \<open>channel.BidirClientChannel\<close> and reads its class attribute \<open>_queue_auto_delete\<close>.
\<close>

datatype chan_class = BidirClientChannel | OtherChannel string

record ch_type =
  cls :: chan_class
  type_queue_auto_delete :: bool

text \<open>
  What the node does to its collaborators is recorded, in order: the call of
  \<open>channel_create_callback\<close>, the transport-level open (\<open>self.client.channel\<close> under
  \<open>blocking_cb\<close>), \<open>ch.stop_consume()\<close>, \<open>ch.close_impl()\<close> and \<open>log.warn\<close>.
  These calls are taken to return normally.
\<close>

datatype effect =
    CreateCallback
  | TransportOpen
  | StopConsume ref
  | CloseImpl ref
  | LogWarn string

text \<open>
  The node's fields \<open>_pool\<close>, \<open>_bidir_pool\<close> and \<open>_pool_map\<close>, the store of channel
  objects and the effects so far.  A dict is an association list with distinct keys:
  \<open>d[k] = v\<close> is \<open>AList.update\<close>, \<open>d.pop(k)\<close> is a lookup and \<open>AList.delete\<close>,
  \<open>len(d)\<close> is the length.  A reference is an index into the store; Python has no
  dangling reference, so a reference \<open>ch\<close> that the node is given or holds names an
  existing object, \<open>ch < length (heap s)\<close>.
\<close>

record nodeb =
  pool :: IDPool
  bidir_pool :: "(nat \<times> ref) list"
  pool_map :: "(nat \<times> nat) list"
  heap :: "channel_obj list"
  effects :: "effect list"

text \<open>\<open>NodeB.__init__\<close>; no channel object exists yet.\<close>

definition NodeB_init :: nodeb where
  "NodeB_init = \<lparr> pool = IDPool_init, bidir_pool = [], pool_map = [], heap = [], effects = [] \<rparr>"

text \<open>
  The local function \<open>new_channel\<close> of \<open>NodeB.channel\<close>: the callback builds the channel
  object (\<open>cb_auto_delete\<close> is the \<open>_queue_auto_delete\<close> it is built with), the
  transport opens a channel (\<open>amq_number\<close> is the number it assigns), and
  \<open>on_channel_open\<close> attaches the one to the other.
\<close>

definition new_channel :: "bool \<Rightarrow> nat \<Rightarrow> nodeb \<Rightarrow> ref \<times> nodeb" where
  "new_channel cb_auto_delete amq_number s =
     (length (heap s),
      s\<lparr> heap := heap s @ [\<lparr> queue_auto_delete = cb_auto_delete, channel_number = amq_number \<rparr>],
         effects := effects s @ [CreateCallback, TransportOpen] \<rparr>)"

text \<open>
  \<open>NodeB.channel(ch_type, channel_create_callback)\<close>.  The assertion inside the reuse
  branch is a branch of the model; the final \<open>assert ch\<close> holds of every channel object.
\<close>

definition NodeB_channel :: "ch_type \<Rightarrow> bool \<Rightarrow> nat \<Rightarrow> nodeb \<Rightarrow> (py_error + ref) \<times> nodeb" where
  "NodeB_channel ch_type cb_auto_delete amq_number s =
     (if cls ch_type = BidirClientChannel \<and> \<not> type_queue_auto_delete ch_type then
        (case get_id (pool s) of (chid, p') \<Rightarrow>
           (let s1 = s\<lparr> pool := p' \<rparr> in
            (case map_of (bidir_pool s1) chid of
               Some ch \<Rightarrow>
                 if chid \<in> set (map snd (pool_map s1)) then (Inl AssertionError, s1)
                 else (Inr ch,
                       s1\<lparr> pool_map :=
                             AList.update (channel_number (heap s1 ! ch)) chid (pool_map s1) \<rparr>)
             | None \<Rightarrow>
                 (case new_channel cb_auto_delete amq_number s1 of (ch, s2) \<Rightarrow>
                    (Inr ch,
                     s2\<lparr> bidir_pool := AList.update chid ch (bidir_pool s2),
                         pool_map :=
                           AList.update (channel_number (heap s2 ! ch)) chid (pool_map s2) \<rparr>)))))
      else
        (case new_channel cb_auto_delete amq_number s of (ch, s2) \<Rightarrow> (Inr ch, s2)))"

text \<open>\<open>NodeB.on_channel_request_close(ch)\<close>.\<close>

definition auto_delete_warning :: string where
  "auto_delete_warning = ''A pooled channel now has _queue_auto_delete set true, we must remove it: check what caused this as it's likely a timing error''"

definition NodeB_on_channel_request_close :: "ref \<Rightarrow> nodeb \<Rightarrow> (py_error + unit) \<times> nodeb" where
  "NodeB_on_channel_request_close ch s =
     (case map_of (pool_map s) (channel_number (heap s ! ch)) of
        Some chid \<Rightarrow>
          (let s1 = s\<lparr> effects := effects s @ [StopConsume ch],
                       pool_map := AList.delete (channel_number (heap s ! ch)) (pool_map s) \<rparr> in
           (case release_id (pool s1) chid of
              Inl e \<Rightarrow> (Inl e, s1)
            | Inr p' \<Rightarrow>
                (let s2 = s1\<lparr> pool := p' \<rparr> in
                 if queue_auto_delete (heap s2 ! ch) then
                   (let s3 = s2\<lparr> effects := effects s2 @ [LogWarn auto_delete_warning] \<rparr> in
                    (case map_of (bidir_pool s3) chid of
                       None \<Rightarrow> (Inl KeyError, s3)
                     | Some pooled \<Rightarrow>
                         (let s4 = s3\<lparr> bidir_pool := AList.delete chid (bidir_pool s3) \<rparr> in
                          if chid \<in> set (ids_free (pool s4)) then
                            (Inr (),
                             s4\<lparr> pool := (pool s4)\<lparr> ids_free := removeAll chid (ids_free (pool s4)) \<rparr> \<rparr>)
                          else (Inl KeyError, s4))))
                 else (Inr (), s2))))
      | None \<Rightarrow> (Inr (), s\<lparr> effects := effects s @ [CloseImpl ch] \<rparr>))"

text \<open>
  A caller that holds a channel may set its \<open>_queue_auto_delete\<close>; this is the only
  change to a channel object that the node can observe.
\<close>

definition set_queue_auto_delete :: "ref \<Rightarrow> bool \<Rightarrow> nodeb \<Rightarrow> nodeb" where
  "set_queue_auto_delete ch b s =
     s\<lparr> heap := (heap s)[ch := (heap s ! ch)\<lparr> queue_auto_delete := b \<rparr>] \<rparr>"

section \<open>States of the blocking node\<close>

text \<open>The class \<open>channel.BidirClientChannel\<close> with queue auto-delete off: the poolable kind.\<close>

definition poolable_type :: ch_type where
  "poolable_type = \<lparr> cls = BidirClientChannel, type_queue_auto_delete = False \<rparr>"

text \<open>
  The states a blocking node can be in: the state after construction, and every state
  that a channel acquisition, a release of an existing channel, or a caller's change of a
  channel's auto-delete flag leads to, whatever the arguments and whatever number the
  transport assigns.  The state an operation leaves behind when it raises is included.
\<close>

inductive reachable :: "nodeb \<Rightarrow> bool" where
  init: "reachable NodeB_init"
| acquire: "reachable s \<Longrightarrow> NodeB_channel ch_type cb_auto_delete amq_number s = (r, s')
     \<Longrightarrow> reachable s'"
| release: "reachable s \<Longrightarrow> ch < length (heap s) \<Longrightarrow> NodeB_on_channel_request_close ch s = (r, s')
     \<Longrightarrow> reachable s'"
| flip: "reachable s \<Longrightarrow> ch < length (heap s) \<Longrightarrow> reachable (set_queue_auto_delete ch b s)"

text \<open>
  The bookkeeping invariant of the identifier pool and the two dicts: keys are distinct,
  no identifier is the value of two numbers, every identifier in the number map is a key
  of the channel pool and is allocated, no identifier is both free and allocated, and
  every identifier known anywhere was minted.
\<close>

definition pool_inv :: "nodeb \<Rightarrow> bool" where
  "pool_inv s \<longleftrightarrow>
     distinct (map fst (bidir_pool s))
   \<and> distinct (map fst (pool_map s))
   \<and> distinct (map snd (pool_map s))
   \<and> snd ` set (pool_map s) \<subseteq> fst ` set (bidir_pool s)
   \<and> snd ` set (pool_map s) \<subseteq> set (ids_inuse (pool s))
   \<and> set (ids_free (pool s)) \<inter> set (ids_inuse (pool s)) = {}
   \<and> (\<forall>i \<in> set (ids_free (pool s)) \<union> set (ids_inuse (pool s)) \<union> fst ` set (bidir_pool s).
          i < minted (pool s))"

text \<open>
  The test of line 65 of \<open>messaging.py\<close>: the kind is exactly
  \<open>channel.BidirClientChannel\<close> and its queue auto-delete is off.
\<close>

definition poolable :: "ch_type \<Rightarrow> bool" where
  "poolable t \<longleftrightarrow> cls t = BidirClientChannel \<and> \<not> type_queue_auto_delete t"

text \<open>
  An identifier maps to a cached but inactive channel: it is a key of the channel pool and
  no transport number maps to it.
\<close>

definition cached_inactive :: "nodeb \<Rightarrow> nat \<Rightarrow> ref \<Rightarrow> bool" where
  "cached_inactive s chid ch \<longleftrightarrow>
     map_of (bidir_pool s) chid = Some ch \<and> chid \<notin> snd ` set (pool_map s)"

text \<open>The transport numbers of the channels that the pool caches, in the pool's order.\<close>

definition cached_numbers :: "nodeb \<Rightarrow> nat list" where
  "cached_numbers s = map (\<lambda>p. channel_number (heap s ! snd p)) (bidir_pool s)"

text \<open>
  A well-formed state: the bookkeeping invariant; the pool caches existing channel
  objects, whose transport numbers are pairwise distinct (they are open channels of one
  connection); each number in the number map is the number of the channel cached under the
  identifier it maps to; and the free identifiers are exactly those of the cached,
  inactive channels.
\<close>

definition node_inv :: "nodeb \<Rightarrow> bool" where
  "node_inv s \<longleftrightarrow>
     pool_inv s
   \<and> snd ` set (bidir_pool s) \<subseteq> {..< length (heap s)}
   \<and> distinct (cached_numbers s)
   \<and> (\<forall>p \<in> set (pool_map s).
         \<exists>ch. (snd p, ch) \<in> set (bidir_pool s) \<and> channel_number (heap s ! ch) = fst p)
   \<and> set (ids_free (pool s)) = fst ` set (bidir_pool s) - snd ` set (pool_map s)"

text \<open>
  The states reached when the transport never assigns the number of a channel that the
  pool still caches.  Every such state is well-formed (\<open>reachable_open_node_inv\<close> below).
\<close>

inductive reachable_open :: "nodeb \<Rightarrow> bool" where
  init: "reachable_open NodeB_init"
| acquire: "reachable_open s \<Longrightarrow> amq_number \<notin> set (cached_numbers s)
     \<Longrightarrow> NodeB_channel ch_type cb_auto_delete amq_number s = (r, s') \<Longrightarrow> reachable_open s'"
| release: "reachable_open s \<Longrightarrow> ch < length (heap s)
     \<Longrightarrow> NodeB_on_channel_request_close ch s = (r, s') \<Longrightarrow> reachable_open s'"
| flip: "reachable_open s \<Longrightarrow> ch < length (heap s)
     \<Longrightarrow> reachable_open (set_queue_auto_delete ch b s)"

section \<open>pyon.net.messaging: NodeNB, the non-blocking node\<close>

text \<open>
  The node's fields \<open>channels\<close> and \<open>id_pool\<close>; the attribute \<open>running\<close> that it
  inherits from \<open>amqp.Node\<close>; the channel objects created so far, each with its class (a
  reference is an index into this list); and the calls
  \<open>self.client.channel(ch.on_channel_open)\<close> made so far, each recorded by the channel
  whose \<open>on_channel_open\<close> it passes: such a call is what starts a channel.

  The registry \<open>channels\<close> is a dict that \<open>start_node\<close> iterates.  It is an association
  list in insertion order, and the iteration follows the list.  The keys are the
  consecutive identifiers 0, 1, 2, ... inserted in this order and never deleted, for which
  CPython's dict lists the keys in the same order.
\<close>

record nodenb =
  channels :: "(nat \<times> ref) list"
  id_pool :: IDPool
  running :: bool
  objects :: "chan_class list"
  client_channel_calls :: "ref list"

text \<open>
  Modelled from the spec: the attribute \<open>running\<close> of the base class \<open>amqp.Node\<close>,
  which is not among the sources, as a new node has it; a node is not active before its
  connection is.
\<close>

definition Node_running :: bool where
  "Node_running = False"

text \<open>\<open>NodeNB.__init__\<close>, which sets \<open>channels\<close> and \<open>id_pool\<close>.\<close>

definition NodeNB_init :: nodenb where
  "NodeNB_init = \<lparr> channels = [], id_pool = IDPool_init, running = Node_running,
                    objects = [], client_channel_calls = [] \<rparr>"

text \<open>
  Modelled from the spec: \<open>amqp.Node.start_node\<close>, which is not among the sources; it is
  called when the connection becomes active and marks the node as running.
\<close>

definition Node_start_node :: "nodenb \<Rightarrow> nodenb" where
  "Node_start_node s = s\<lparr> running := True \<rparr>"

text \<open>
  \<open>NodeNB.start_channel(ch_id)\<close>: \<^verbatim>\<open>ch = self.channels[ch_id]\<close>, which raises
  \<open>KeyError\<close> for an unknown identifier, then
  \<^verbatim>\<open>self.client.channel(ch.on_channel_open)\<close>.
\<close>

definition start_channel :: "nat \<Rightarrow> nodenb \<Rightarrow> (py_error + unit) \<times> nodenb" where
  "start_channel ch_id s =
     (case map_of (channels s) ch_id of
        None \<Rightarrow> (Inl KeyError, s)
      | Some ch \<Rightarrow> (Inr (), s\<lparr> client_channel_calls := client_channel_calls s @ [ch] \<rparr>))"

text \<open>The loop \<^verbatim>\<open>for ch_id in self.channels: self.start_channel(ch_id)\<close>.\<close>

fun start_channels :: "nat list \<Rightarrow> nodenb \<Rightarrow> (py_error + unit) \<times> nodenb" where
  "start_channels [] s = (Inr (), s)"
| "start_channels (ch_id # rest) s =
     (case start_channel ch_id s of
        (Inl e, s') \<Rightarrow> (Inl e, s')
      | (Inr u, s') \<Rightarrow> start_channels rest s')"

text \<open>\<open>NodeNB.start_node\<close>.\<close>

definition NodeNB_start_node :: "nodenb \<Rightarrow> (py_error + unit) \<times> nodenb" where
  "NodeNB_start_node s =
     (let s1 = Node_start_node s in start_channels (map fst (channels s1)) s1)"

text \<open>
  \<open>NodeNB.channel(ch_type)\<close>: \<^verbatim>\<open>ch = ch_type()\<close> creates the channel object, then
  \<^verbatim>\<open>ch_id = self.id_pool.get_id()\<close>, \<^verbatim>\<open>self.channels[ch_id] = ch\<close>, and
  \<^verbatim>\<open>if self.running: self.start_channel(ch_id)\<close>.
\<close>

definition NodeNB_channel :: "chan_class \<Rightarrow> nodenb \<Rightarrow> (py_error + ref) \<times> nodenb" where
  "NodeNB_channel ch_type s =
     (let ch = length (objects s);
          s1 = s\<lparr> objects := objects s @ [ch_type] \<rparr>
      in case get_id (id_pool s1) of (ch_id, p') \<Rightarrow>
           (let s2 = s1\<lparr> id_pool := p', channels := AList.update ch_id ch (channels s1) \<rparr>
            in if running s2 then
                 (case start_channel ch_id s2 of
                    (Inl e, s3) \<Rightarrow> (Inl e, s3)
                  | (Inr u, s3) \<Rightarrow> (Inr ch, s3))
               else (Inr ch, s2)))"

text \<open>The states of a non-blocking node: after construction, and after every call.\<close>

inductive nb_reachable :: "nodenb \<Rightarrow> bool" where
  init: "nb_reachable NodeNB_init"
| channel: "nb_reachable s \<Longrightarrow> NodeNB_channel ch_type s = (r, s') \<Longrightarrow> nb_reachable s'"
| start: "nb_reachable s \<Longrightarrow> NodeNB_start_node s = (r, s') \<Longrightarrow> nb_reachable s'"

text \<open>
  In every such state no identifier has been released, and the registry holds the
  identifiers minted so far, in increasing order.
\<close>

definition nb_inv :: "nodenb \<Rightarrow> bool" where
  "nb_inv s \<longleftrightarrow> ids_free (id_pool s) = []
     \<and> map fst (channels s) = [0 ..< minted (id_pool s)]
     \<and> set (ids_inuse (id_pool s)) = {..< minted (id_pool s)}"

section \<open>pyon.datastore.couchdb: reading and querying documents\<close>

text \<open>
  A document is a dict from field names to values.  Of the CouchDB server the data store
  uses \<open>self.server[name]\<close>, which raises \<open>ResourceNotFound\<close> when there is no database
  of that name, and \<open>db.get(id)\<close> or \<open>db.get(id, rev=rev_id)\<close>, which return the
  document or, when there is none, the default \<open>None\<close>.  A database is modelled by its
  head documents and its documents by revision.
\<close>

type_synonym doc = "string \<rightharpoonup> pyval"

record couch_db =
  heads :: "string \<rightharpoonup> doc"
  revisions :: "string \<times> string \<rightharpoonup> doc"

type_synonym couch_server = "string \<rightharpoonup> couch_db"

definition server_getitem :: "couch_server \<Rightarrow> string \<Rightarrow> py_error + couch_db" where
  "server_getitem server name =
     (case server name of None \<Rightarrow> Inl ResourceNotFound | Some db \<Rightarrow> Inr db)"

definition db_get :: "couch_db \<Rightarrow> string \<Rightarrow> string option \<Rightarrow> doc option" where
  "db_get db object_id revision =
     (case revision of None \<Rightarrow> heads db object_id | Some r \<Rightarrow> revisions db (object_id, r))"

text \<open>The data store object: its server and its \<open>datastore_name\<close>.\<close>

record couchdb_datastore =
  server :: couch_server
  datastore_name :: string

text \<open>
  \<open>CouchDB_DataStore.read_doc(object_id, rev_id="", datastore_name="")\<close>.  The result
  \<open>Inr None\<close> is the Python value \<open>None\<close>, returned as it came from \<open>db.get\<close>.
\<close>

definition read_doc ::
  "couchdb_datastore \<Rightarrow> string \<Rightarrow> string \<Rightarrow> string \<Rightarrow> py_error + doc option" where
  "read_doc self object_id rev_id ds_name =
     (let ds_name = (if ds_name = [] then datastore_name self else ds_name) in
      case server_getitem (server self) ds_name of
        Inl e \<Rightarrow> Inl e
      | Inr db \<Rightarrow>
          if rev_id = [] then Inr (db_get db object_id None)
          else Inr (db_get db object_id (Some rev_id)))"

text \<open>
  \<open>IonObject(type, doc)\<close> of \<open>pyon.core.bootstrap\<close> builds the object of the given type
  from the document; the model keeps the two.
\<close>

datatype ion_object = IonObject pyval doc

text \<open>
  \<open>CouchDB_DataStore.read(object_id, rev_id="", datastore_name="")\<close>:
  \<^verbatim>\<open>doc = self.read_doc(...)\<close>, then \<^verbatim>\<open>obj = IonObject(doc["type_"], doc)\<close>.
  Subscripting \<open>None\<close> raises \<open>TypeError\<close>; a document without the key \<open>type_\<close>
  raises \<open>KeyError\<close>.
\<close>

definition CouchDB_read ::
  "couchdb_datastore \<Rightarrow> string \<Rightarrow> string \<Rightarrow> string \<Rightarrow> py_error + ion_object" where
  "CouchDB_read self object_id rev_id ds_name =
     (case read_doc self object_id rev_id ds_name of
        Inl e \<Rightarrow> Inl e
      | Inr None \<Rightarrow> Inl TypeError
      | Inr (Some d) \<Rightarrow>
          (case d ''type_'' of
             None \<Rightarrow> Inl KeyError
           | Some t \<Rightarrow> Inr (IonObject t d)))"

text \<open>
  \<open>EventRepository.get_event(event_id)\<close>:
  \<^verbatim>\<open>event_obj = self.event_store.read(event_id)\<close>, here with the CouchDB data store
  as event store.
\<close>

definition get_event :: "couchdb_datastore \<Rightarrow> string \<Rightarrow> py_error + ion_object" where
  "get_event event_store event_id = CouchDB_read event_store event_id [] []"

text \<open>
  The criteria of \<open>find_docs\<close>: a list \<open>[field, operator, value]\<close>, the token
  \<open>DataStore.AND\<close>, or any other token, which stands for "or".
\<close>

datatype criterion = Comparison string string string | AND | OtherToken

text \<open>The JavaScript map function that \<open>find_docs\<close> writes for the criteria.\<close>

fun criterion_text :: "criterion \<Rightarrow> string" where
  "criterion_text (Comparison field oper val) =
     ''doc.'' @ field @ '' '' @ oper @ '' '' @ [CHR 0x22] @ val @ [CHR 0x22]"
| "criterion_text AND = '' && ''"
| "criterion_text OtherToken = '' || ''"

definition map_fun :: "criterion list \<Rightarrow> string" where
  "map_fun criteria =
     (if length criteria = 0 then
        ''function(doc) {'' @ [CHR 0x0A] @ ''    emit(doc._id, doc);'' @ [CHR 0x0A] @ ''}''
      else
        ''function(doc) {'' @ [CHR 0x0A] @ ''    if ('' @ concat (map criterion_text criteria)
        @ '') {'' @ [CHR 0x0A] @ ''        emit(doc._id, doc);'' @ [CHR 0x0A]
        @ ''    }'' @ [CHR 0x0A] @ ''}'')"

text \<open>
  \<open>CouchDB_DataStore.find_docs(criteria, datastore_name="")\<close>.  The argument \<open>query\<close>
  is \<open>db.query\<close>, the database's evaluation of a map function: the values of the rows it
  returns, or the exception it raises.
\<close>

definition find_docs ::
  "couchdb_datastore \<Rightarrow> (couch_db \<Rightarrow> string \<Rightarrow> py_error + doc list) \<Rightarrow> criterion list \<Rightarrow> string
     \<Rightarrow> py_error + doc list" where
  "find_docs self query criteria ds_name =
     (let ds_name = (if ds_name = [] then datastore_name self else ds_name) in
      case server_getitem (server self) ds_name of
        Inl e \<Rightarrow> Inl e
      | Inr db \<Rightarrow>
          (case query db (map_fun criteria) of
             Inl e \<Rightarrow> if e = ResourceNotFound then Inl NotFound else Inl e
           | Inr queryList \<Rightarrow>
               if length queryList = 0 then Inl NotFound else Inr queryList))"

section \<open>Properties of the event module\<close>

text \<open>
  Claim C5.  When event type and origin are both present (truthy: neither \<open>None\<close> nor
  empty), the publisher's topic is the two joined by a dot; for the strings
  \<open>TempAlert\<close> and \<open>sensor42\<close> it is exactly \<open>TempAlert.sensor42\<close>.  A subscriber's
  binding pattern replaces a missing event type by \<open>*\<close> and a missing origin by \<open>#\<close>,
  so with neither it is \<open>*.#\<close>.
\<close>

theorem topic_construction:
  "(truthy e \<and> truthy o' \<longrightarrow>
      EventPublisher_topic e o' = Inr (py_str e @ ''.'' @ py_str o'))
   \<and> (s \<noteq> [] \<and> t \<noteq> [] \<longrightarrow>
      EventPublisher_topic (PStr s) (PStr t) = Inr (s @ ''.'' @ t))
   \<and> EventPublisher_topic (PStr ''TempAlert'') (PStr ''sensor42'') = Inr ''TempAlert.sensor42''
   \<and> EventSubscriber_topic PNone PNone = ''*.#''
   \<and> EventSubscriber_topic e o' =
        (if truthy e then py_str e else ''*'') @ ''.'' @ (if truthy o' then py_str o' else ''#'')"
  by (simp add: EventPublisher_topic_def EventSubscriber_topic_def py_or_def Let_def)

theorem topic_construction_witness:
  "EventPublisher_topic (PStr ''Alarm'') (PInt 42) = Inr ''Alarm.42''
   \<and> EventPublisher_topic (PStr ''a'') (PStr ''b.c'') = Inr ''a.b.c''
   \<and> EventSubscriber_topic (PStr ''Alarm'') PNone = ''Alarm.#''"
  using topic_construction [of "PStr ''Alarm''" "PInt 42" "''a''" "''b.c''"]
        topic_construction [of "PStr ''Alarm''" "PNone" "''a''" "''b.c''"]
  by (simp add: digit_char_def)

text \<open>
  Claim C1.  Every call selects one view by the precedence of the \<open>if\<close>/\<open>elif\<close>
  chain, where a filter counts as supplied when it is truthy: origin and event type give
  \<open>by_origintype\<close> with key prefix \<open>[origin, event_type]\<close>; origin alone gives
  \<open>by_origin\<close> with \<open>[origin]\<close>; event type alone gives \<open>by_type\<close> with
  \<open>[event_type]\<close>; anything else gives \<open>by_time\<close> with the empty prefix.  In every
  branch a supplied \<open>start_ts\<close> is appended to the start key and a supplied
  \<open>end_ts\<close> to the end key, and nothing else is.
\<close>

theorem find_events_view_selection:
  "(truthy origin \<and> truthy event_type \<longrightarrow>
      view_name (fst (find_events event_type origin start_ts end_ts kw)) = ''by_origintype''
      \<and> start_key (fst (find_events event_type origin start_ts end_ts kw))
          = [origin, event_type] @ (if truthy start_ts then [start_ts] else [])
      \<and> end_key (fst (find_events event_type origin start_ts end_ts kw))
          = [origin, event_type] @ (if truthy end_ts then [end_ts] else []))
   \<and> (truthy origin \<and> \<not> truthy event_type \<longrightarrow>
      view_name (fst (find_events event_type origin start_ts end_ts kw)) = ''by_origin''
      \<and> start_key (fst (find_events event_type origin start_ts end_ts kw))
          = [origin] @ (if truthy start_ts then [start_ts] else [])
      \<and> end_key (fst (find_events event_type origin start_ts end_ts kw))
          = [origin] @ (if truthy end_ts then [end_ts] else []))
   \<and> (\<not> truthy origin \<and> truthy event_type \<longrightarrow>
      view_name (fst (find_events event_type origin start_ts end_ts kw)) = ''by_type''
      \<and> start_key (fst (find_events event_type origin start_ts end_ts kw))
          = [event_type] @ (if truthy start_ts then [start_ts] else [])
      \<and> end_key (fst (find_events event_type origin start_ts end_ts kw))
          = [event_type] @ (if truthy end_ts then [end_ts] else []))
   \<and> (\<not> truthy origin \<and> \<not> truthy event_type \<longrightarrow>
      view_name (fst (find_events event_type origin start_ts end_ts kw)) = ''by_time''
      \<and> start_key (fst (find_events event_type origin start_ts end_ts kw))
          = (if truthy start_ts then [start_ts] else [])
      \<and> end_key (fst (find_events event_type origin start_ts end_ts kw))
          = (if truthy end_ts then [end_ts] else []))
   \<and> design_name (fst (find_events event_type origin start_ts end_ts kw)) = ''event''"
  by (simp add: find_events_def select_view_def)

theorem find_events_view_selection_witness:
  "view_name (fst (find_events (PStr ''Y'') (PStr ''X'') (PStr ''100'') (PStr ''200'') Map.empty))
     = ''by_origintype''
   \<and> start_key (fst (find_events (PStr ''Y'') (PStr ''X'') (PStr ''100'') (PStr ''200'') Map.empty))
     = [PStr ''X'', PStr ''Y'', PStr ''100'']
   \<and> end_key (fst (find_events (PStr ''Y'') (PStr ''X'') (PStr ''100'') (PStr ''200'') Map.empty))
     = [PStr ''X'', PStr ''Y'', PStr ''200'']
   \<and> view_name (fst (find_events PNone (PStr ''X'') PNone (PStr ''200'') Map.empty)) = ''by_origin''
   \<and> start_key (fst (find_events PNone (PStr ''X'') PNone (PStr ''200'') Map.empty)) = [PStr ''X'']
   \<and> end_key (fst (find_events PNone (PStr ''X'') PNone (PStr ''200'') Map.empty))
     = [PStr ''X'', PStr ''200'']
   \<and> view_name (fst (find_events (PStr ''Y'') PNone (PStr ''100'') PNone Map.empty)) = ''by_type''
   \<and> start_key (fst (find_events (PStr ''Y'') PNone (PStr ''100'') PNone Map.empty))
     = [PStr ''Y'', PStr ''100'']
   \<and> view_name (fst (find_events PNone PNone (PStr ''100'') PNone Map.empty)) = ''by_time''
   \<and> start_key (fst (find_events PNone PNone (PStr ''100'') PNone Map.empty)) = [PStr ''100'']
   \<and> end_key (fst (find_events PNone PNone (PStr ''100'') PNone Map.empty)) = []"
  using find_events_view_selection [of "PStr ''X''" "PStr ''Y''" "PStr ''100''" "PStr ''200''" Map.empty]
        find_events_view_selection [of "PStr ''X''" PNone PNone "PStr ''200''" Map.empty]
        find_events_view_selection [of PNone "PStr ''Y''" "PStr ''100''" PNone Map.empty]
        find_events_view_selection [of PNone PNone "PStr ''100''" PNone Map.empty]
  by simp

text \<open>
  Claim C4.  A call that supplies none of origin, event type, start and end timestamp,
  and no limit, queries \<open>by_time\<close> with empty keys and with the limit set to 100, and
  logs one warning.
\<close>

theorem find_events_default_limit:
  "\<not> truthy origin \<Longrightarrow> \<not> truthy event_type \<Longrightarrow> \<not> truthy start_ts \<Longrightarrow> \<not> truthy end_ts
   \<Longrightarrow> kw ''limit'' = None
   \<Longrightarrow> find_events event_type origin start_ts end_ts kw =
         (\<lparr> design_name = ''event'', view_name = ''by_time'', start_key = [], end_key = [],
            id_only = False, kwargs = kw(''limit'' \<mapsto> PInt 100) \<rparr>,
          [''Querying all events, no limit given. Set limit to 100''])"
  by (simp add: find_events_def select_view_def dict_get_def)

theorem find_events_default_limit_witness:
  "find_events PNone PNone PNone PNone [''descending'' \<mapsto> PBool True] =
     (\<lparr> design_name = ''event'', view_name = ''by_time'', start_key = [], end_key = [],
        id_only = False, kwargs = [''descending'' \<mapsto> PBool True, ''limit'' \<mapsto> PInt 100] \<rparr>,
      [''Querying all events, no limit given. Set limit to 100''])"
  using find_events_default_limit [of PNone PNone PNone PNone "[''descending'' \<mapsto> PBool True]"]
  by simp

text \<open>
  Claim C10.  In the unfiltered branch the test is \<open>kwargs.get("limit", 0) < 1\<close>: a
  limit that the caller did supply is overridden to 100, with the warning, whenever it is
  less than 1 (for example 0), exactly as an absent limit is; a supplied limit of at least
  1 is kept and nothing is logged.
\<close>

theorem find_events_limit_below_one_overridden:
  "\<not> truthy origin \<Longrightarrow> \<not> truthy event_type \<Longrightarrow> \<not> truthy start_ts \<Longrightarrow> \<not> truthy end_ts
   \<Longrightarrow> kw ''limit'' = Some (PInt n)
   \<Longrightarrow> (n < 1 \<longrightarrow>
          kwargs (fst (find_events event_type origin start_ts end_ts kw)) = kw(''limit'' \<mapsto> PInt 100)
          \<and> snd (find_events event_type origin start_ts end_ts kw)
              = [''Querying all events, no limit given. Set limit to 100''])
       \<and> (1 \<le> n \<longrightarrow>
          kwargs (fst (find_events event_type origin start_ts end_ts kw)) = kw
          \<and> snd (find_events event_type origin start_ts end_ts kw) = [])
       \<and> view_name (fst (find_events event_type origin start_ts end_ts kw)) = ''by_time''"
  by (simp add: find_events_def select_view_def dict_get_def)

theorem find_events_limit_below_one_overridden_witness:
  "kwargs (fst (find_events PNone PNone PNone PNone [''limit'' \<mapsto> PInt 0])) ''limit''
     = Some (PInt 100)
   \<and> snd (find_events PNone PNone PNone PNone [''limit'' \<mapsto> PInt 0])
     = [''Querying all events, no limit given. Set limit to 100'']
   \<and> kwargs (fst (find_events PNone PNone PNone PNone [''limit'' \<mapsto> PInt 5])) ''limit''
     = Some (PInt 5)
   \<and> snd (find_events PNone PNone PNone PNone [''limit'' \<mapsto> PInt 5]) = []"
  using find_events_limit_below_one_overridden
          [of PNone PNone PNone PNone "[''limit'' \<mapsto> PInt 0]" 0]
        find_events_limit_below_one_overridden
          [of PNone PNone PNone PNone "[''limit'' \<mapsto> PInt 5]" 5]
  by simp

section \<open>Association lists as dicts\<close>

lemma vals_update: "snd ` set (AList.update k v al) \<subseteq> insert v (snd ` set al)"
  by (induction al) auto

lemma distinct_vals_update:
  "distinct (map snd al) \<Longrightarrow> v \<notin> snd ` set al \<Longrightarrow> distinct (map snd (AList.update k v al))"
proof (induction al)
  case Nil
  then show ?case by simp
next
  case (Cons p al)
  have "snd ` set (AList.update k v al) \<subseteq> insert v (snd ` set al)"
    by (rule vals_update)
  with Cons show ?case by (auto simp: rev_image_eqI)
qed

lemma vals_delete: "snd ` set (AList.delete k al) \<subseteq> snd ` set al"
  by (induction al) auto

lemma distinct_vals_delete: "distinct (map snd al) \<Longrightarrow> distinct (map snd (AList.delete k al))"
proof (induction al)
  case Nil
  then show ?case by simp
next
  case (Cons p al)
  have "snd ` set (AList.delete k al) \<subseteq> snd ` set al" by (rule vals_delete)
  with Cons show ?case by auto
qed

lemma vals_delete_notin:
  "distinct (map snd al) \<Longrightarrow> map_of al k = Some v \<Longrightarrow> v \<notin> snd ` set (AList.delete k al)"
proof (induction al)
  case Nil
  then show ?case by simp
next
  case (Cons p al)
  have sub: "snd ` set (AList.delete k al) \<subseteq> snd ` set al" by (rule vals_delete)
  show ?case
  proof (cases "fst p = k")
    case True
    with Cons.prems sub show ?thesis by (cases p) (auto simp: AList.delete_eq)
  next
    case False
    with Cons show ?thesis by (cases p) (auto simp: image_iff dest!: map_of_SomeD)
  qed
qed

lemma keys_delete: "fst ` set (AList.delete k al) = fst ` set al - {k}"
  by (induction al) auto

lemma map_of_Some_key: "map_of al k = Some v \<Longrightarrow> k \<in> fst ` set al"
  by (metis domI dom_map_of_conv_image_fst)

lemma map_of_Some_val: "map_of al k = Some v \<Longrightarrow> v \<in> snd ` set al"
  by (metis map_of_SomeD snd_conv image_eqI)

section \<open>The bookkeeping invariant of the blocking node\<close>

lemma get_id_fresh:
  assumes "get_id p = (i, p')"
    and "set (ids_free p) \<inter> set (ids_inuse p) = {}"
    and "\<forall>j \<in> set (ids_free p) \<union> set (ids_inuse p). j < minted p"
  shows "i \<notin> set (ids_inuse p)"
    and "set (ids_inuse p') = insert i (set (ids_inuse p))"
    and "set (ids_free p') = set (ids_free p) - {i}"
    and "i < minted p'" and "minted p \<le> minted p'"
proof -
  show "i \<notin> set (ids_inuse p)"
  proof (cases "ids_free p = []")
    case True
    with assms show ?thesis by (auto simp: get_id_def Let_def)
  next
    case False
    then have "Min (set (ids_free p)) \<in> set (ids_free p)" by (intro Min_in) auto
    with assms False show ?thesis by (auto simp: get_id_def Let_def)
  qed
  show "set (ids_inuse p') = insert i (set (ids_inuse p))"
    using assms(1) by (auto simp: get_id_def Let_def split: if_splits)
  show "set (ids_free p') = set (ids_free p) - {i}"
    using assms by (auto simp: get_id_def Let_def split: if_splits)
  show "i < minted p'"
  proof (cases "ids_free p = []")
    case True
    with assms show ?thesis by (auto simp: get_id_def Let_def)
  next
    case False
    then have "Min (set (ids_free p)) \<in> set (ids_free p)" by (intro Min_in) auto
    with assms False show ?thesis by (auto simp: get_id_def Let_def)
  qed
  show "minted p \<le> minted p'"
    using assms(1) by (auto simp: get_id_def Let_def split: if_splits)
qed

lemma pool_inv_init: "pool_inv NodeB_init"
  by (simp add: pool_inv_def NodeB_init_def IDPool_init_def)

lemma pool_inv_new_channel:
  "pool_inv s \<Longrightarrow> new_channel a n s = (ch, s') \<Longrightarrow> pool_inv s'"
  by (clarsimp simp: pool_inv_def new_channel_def)

lemma pool_inv_acquire_step:
  assumes inv: "pool_inv s"
    and g: "get_id (pool s) = (chid, p')"
    and key: "(b = bidir_pool s \<and> chid \<in> fst ` set (bidir_pool s))
              \<or> b = AList.update chid ch (bidir_pool s)"
  shows "pool_inv (s\<lparr> pool := p', heap := h, effects := e, bidir_pool := b,
                      pool_map := AList.update n chid (pool_map s) \<rparr>)"
proof -
  have disj: "set (ids_free (pool s)) \<inter> set (ids_inuse (pool s)) = {}"
    and bound: "\<forall>j \<in> set (ids_free (pool s)) \<union> set (ids_inuse (pool s)). j < minted (pool s)"
    using inv unfolding pool_inv_def by blast+
  note f = get_id_fresh [OF g disj bound]
  have V: "snd ` set (pool_map s) \<subseteq> fst ` set (bidir_pool s)"
    and U: "snd ` set (pool_map s) \<subseteq> set (ids_inuse (pool s))"
    and B: "\<forall>i \<in> fst ` set (bidir_pool s). i < minted (pool s)"
    and D: "distinct (map fst (bidir_pool s))" "distinct (map fst (pool_map s))"
           "distinct (map snd (pool_map s))"
    using inv unfolding pool_inv_def by blast+
  have notval: "chid \<notin> snd ` set (pool_map s)"
    using f(1) U by blast
  have sub: "snd ` set (AList.update n chid (pool_map s)) \<subseteq> insert chid (snd ` set (pool_map s))"
    by (rule vals_update)
  have Kb: "fst ` set b = insert chid (fst ` set (bidir_pool s))"
  proof -
    from key show ?thesis
    proof
      assume "b = bidir_pool s \<and> chid \<in> fst ` set (bidir_pool s)"
      then show ?thesis by (simp add: insert_absorb)
    next
      assume "b = AList.update chid ch (bidir_pool s)"
      then have "fst ` set b = {chid} \<union> fst ` set (bidir_pool s)"
        by (simp only: AList.dom_update)
      then show ?thesis by simp
    qed
  qed
  have 1: "distinct (map fst b)" using key D(1) by (auto simp: distinct_update)
  have 2: "distinct (map fst (AList.update n chid (pool_map s)))"
    using D(2) by (simp add: distinct_update)
  have 3: "distinct (map snd (AList.update n chid (pool_map s)))"
    using D(3) notval by (rule distinct_vals_update)
  have 4: "snd ` set (AList.update n chid (pool_map s)) \<subseteq> fst ` set b"
    using sub V Kb by blast
  have 5: "snd ` set (AList.update n chid (pool_map s)) \<subseteq> set (ids_inuse p')"
    using sub U f(2) by blast
  have 6: "set (ids_free p') \<inter> set (ids_inuse p') = {}"
    using disj f(2,3) by blast
  have 7: "\<forall>i \<in> set (ids_free p') \<union> set (ids_inuse p') \<union> fst ` set b. i < minted p'"
  proof
    fix i assume "i \<in> set (ids_free p') \<union> set (ids_inuse p') \<union> fst ` set b"
    then have "i = chid \<or> i \<in> set (ids_free (pool s)) \<union> set (ids_inuse (pool s)) \<union> fst ` set (bidir_pool s)"
      using f(2,3) Kb by blast
    then show "i < minted p'"
      using f(4,5) bound B by (metis Un_iff less_le_trans)
  qed
  show ?thesis
    unfolding pool_inv_def using 1 2 3 4 5 6 7 by simp
qed

lemma pool_inv_channel:
  assumes inv: "pool_inv s"
    and run: "NodeB_channel ch_type a n s = (r, s')"
  shows "pool_inv s'"
proof (cases "cls ch_type = BidirClientChannel \<and> \<not> type_queue_auto_delete ch_type")
  case False
  with run obtain ch where "new_channel a n s = (ch, s')"
    by (auto simp: NodeB_channel_def split: prod.splits)
  with inv show ?thesis by (rule pool_inv_new_channel)
next
  case True
  obtain chid p' where g: "get_id (pool s) = (chid, p')" by (cases "get_id (pool s)")
  have disj: "set (ids_free (pool s)) \<inter> set (ids_inuse (pool s)) = {}"
    and bound: "\<forall>j \<in> set (ids_free (pool s)) \<union> set (ids_inuse (pool s)). j < minted (pool s)"
    and U: "snd ` set (pool_map s) \<subseteq> set (ids_inuse (pool s))"
    using inv unfolding pool_inv_def by blast+
  note f = get_id_fresh [OF g disj bound]
  have notval: "chid \<notin> snd ` set (pool_map s)"
    using f(1) U by blast
  show ?thesis
  proof (cases "map_of (bidir_pool s) chid")
    case (Some ch)
    then have key: "chid \<in> fst ` set (bidir_pool s)" by (rule map_of_Some_key)
    from run True g Some notval
    have s': "s' = s\<lparr> pool := p', heap := heap s, effects := effects s, bidir_pool := bidir_pool s,
         pool_map := AList.update (channel_number (heap s ! ch)) chid (pool_map s) \<rparr>"
      by (auto simp: NodeB_channel_def Let_def)
    show ?thesis unfolding s'
      by (rule pool_inv_acquire_step [OF inv g]) (use key in auto)
  next
    case None
    from run True g None
    have s': "s' = s\<lparr> pool := p',
        heap := heap s @ [\<lparr> queue_auto_delete = a, channel_number = n \<rparr>],
        effects := effects s @ [CreateCallback, TransportOpen],
        bidir_pool := AList.update chid (length (heap s)) (bidir_pool s),
        pool_map := AList.update n chid (pool_map s) \<rparr>"
      by (auto simp: NodeB_channel_def Let_def new_channel_def)
    show ?thesis unfolding s'
      by (rule pool_inv_acquire_step [OF inv g]) auto
  qed
qed


lemma pool_inv_effects:
  "pool_inv (s\<lparr> effects := e \<rparr>) = pool_inv s"
  by (simp add: pool_inv_def)

lemma pool_inv_flip: "pool_inv (set_queue_auto_delete ch b s) = pool_inv s"
  by (simp add: pool_inv_def set_queue_auto_delete_def)

lemma pool_inv_release:
  assumes inv: "pool_inv s"
    and run: "NodeB_on_channel_request_close ch s = (r, s')"
  shows "pool_inv s'"
proof (cases "map_of (pool_map s) (channel_number (heap s ! ch))")
  case None
  with run have "s' = s\<lparr> effects := effects s @ [CloseImpl ch] \<rparr>"
    by (auto simp: NodeB_on_channel_request_close_def)
  with inv show ?thesis by (simp add: pool_inv_effects)
next
  case (Some chid)
  let ?n = "channel_number (heap s ! ch)"
  let ?pm = "AList.delete ?n (pool_map s)"
  have V: "snd ` set (pool_map s) \<subseteq> fst ` set (bidir_pool s)"
    and U: "snd ` set (pool_map s) \<subseteq> set (ids_inuse (pool s))"
    and disj: "set (ids_free (pool s)) \<inter> set (ids_inuse (pool s)) = {}"
    and B: "\<forall>i \<in> set (ids_free (pool s)) \<union> set (ids_inuse (pool s)) \<union> fst ` set (bidir_pool s).
              i < minted (pool s)"
    and D: "distinct (map fst (bidir_pool s))" "distinct (map fst (pool_map s))"
           "distinct (map snd (pool_map s))"
    using inv unfolding pool_inv_def by blast+
  have val: "chid \<in> snd ` set (pool_map s)" using Some by (rule map_of_Some_val)
  then have inuse: "chid \<in> set (ids_inuse (pool s))" and key: "chid \<in> fst ` set (bidir_pool s)"
    using U V by blast+
  have sub: "snd ` set ?pm \<subseteq> snd ` set (pool_map s)" by (rule vals_delete)
  have gone: "chid \<notin> snd ` set ?pm" using D(3) Some by (rule vals_delete_notin)
  have d2: "distinct (map fst ?pm)" using D(2) by (simp add: distinct_delete)
  have d3: "distinct (map snd ?pm)" using D(3) by (rule distinct_vals_delete)
  obtain pooled where pooled: "map_of (bidir_pool s) chid = Some pooled"
    using key by (metis domD dom_map_of_conv_image_fst)
  let ?p1 = "(pool s)\<lparr> ids_inuse := removeAll chid (ids_inuse (pool s)),
                        ids_free := chid # ids_free (pool s) \<rparr>"
  have rel: "release_id (pool s) chid = Inr ?p1"
    using inuse by (simp add: release_id_def)
  show ?thesis
  proof (cases "queue_auto_delete (heap s ! ch)")
    case False
    with run Some rel
    have s': "s' = s\<lparr> effects := effects s @ [StopConsume ch], pool_map := ?pm, pool := ?p1 \<rparr>"
      by (auto simp: NodeB_on_channel_request_close_def Let_def)
    have 4: "snd ` set ?pm \<subseteq> fst ` set (bidir_pool s)"
      using sub V by blast
    have 5: "snd ` set ?pm \<subseteq> set (removeAll chid (ids_inuse (pool s)))"
      using sub gone U by auto
    have 6: "set (chid # ids_free (pool s)) \<inter> set (removeAll chid (ids_inuse (pool s))) = {}"
      using disj by auto
    have 7: "\<forall>i \<in> set (chid # ids_free (pool s)) \<union> set (removeAll chid (ids_inuse (pool s)))
                 \<union> fst ` set (bidir_pool s). i < minted (pool s)"
      using B inuse by auto
    show ?thesis
      unfolding s' pool_inv_def
      using D(1) d2 d3 4 5 6 7 by simp
  next
    case True
    with run Some rel pooled
    have s': "s' = s\<lparr> effects := effects s @ [StopConsume ch, LogWarn auto_delete_warning],
           pool_map := ?pm,
           bidir_pool := AList.delete chid (bidir_pool s),
           pool := (pool s)\<lparr> ids_inuse := removeAll chid (ids_inuse (pool s)),
                              ids_free := removeAll chid (chid # ids_free (pool s)) \<rparr> \<rparr>"
      by (auto simp: NodeB_on_channel_request_close_def Let_def)
    have k: "fst ` set (AList.delete chid (bidir_pool s)) = fst ` set (bidir_pool s) - {chid}"
      by (rule keys_delete)
    have d1: "distinct (map fst (AList.delete chid (bidir_pool s)))"
      using D(1) by (simp add: distinct_delete)
    have 4: "snd ` set ?pm \<subseteq> fst ` set (AList.delete chid (bidir_pool s))"
      using sub gone V k by blast
    have 5: "snd ` set ?pm \<subseteq> set (removeAll chid (ids_inuse (pool s)))"
      using sub gone U by auto
    have 6: "set (removeAll chid (chid # ids_free (pool s))) \<inter> set (removeAll chid (ids_inuse (pool s))) = {}"
      using disj by auto
    have 7: "\<forall>i \<in> set (removeAll chid (chid # ids_free (pool s))) \<union> set (removeAll chid (ids_inuse (pool s)))
                 \<union> fst ` set (AList.delete chid (bidir_pool s)). i < minted (pool s)"
      using B k by auto
    show ?thesis
      unfolding s' pool_inv_def
      using d1 d2 d3 4 5 6 7 by simp
  qed
qed

lemma reachable_pool_inv: "reachable s \<Longrightarrow> pool_inv s"
proof (induction rule: reachable.induct)
  case init
  show ?case by (rule pool_inv_init)
next
  case (acquire s ch_type cb_auto_delete amq_number r s')
  then show ?case by (blast intro: pool_inv_channel)
next
  case (release s ch r s')
  then show ?case by (blast intro: pool_inv_release)
next
  case (flip s ch b)
  then show ?case by (simp add: pool_inv_flip)
qed

lemma vals_card_le:
  assumes "distinct (map snd al)" "distinct (map fst bl)" "snd ` set al \<subseteq> fst ` set bl"
  shows "length al \<le> length bl"
proof -
  have "length al = card (snd ` set al)"
    using assms(1) by (metis distinct_card length_map set_map)
  also have "\<dots> \<le> card (fst ` set bl)"
    using assms(3) by (intro card_mono) auto
  also have "\<dots> = length bl"
    using assms(2) by (metis distinct_card length_map set_map)
  finally show ?thesis .
qed

text \<open>
  Claim C6.  In every state of the blocking node (after construction and after every
  acquisition and release), each identifier that the number map holds is a key of the
  channel pool, and the number map has at most as many entries as the channel pool; both
  dicts have distinct keys, so the lengths are their sizes.
\<close>

theorem number_map_within_pool:
  assumes "reachable s"
  shows "(\<forall>n chid. map_of (pool_map s) n = Some chid \<longrightarrow> map_of (bidir_pool s) chid \<noteq> None)
       \<and> length (pool_map s) \<le> length (bidir_pool s)
       \<and> distinct (map fst (pool_map s)) \<and> distinct (map fst (bidir_pool s))"
proof -
  have inv: "pool_inv s" using assms by (rule reachable_pool_inv)
  then have V: "snd ` set (pool_map s) \<subseteq> fst ` set (bidir_pool s)"
    and D: "distinct (map fst (bidir_pool s))" "distinct (map fst (pool_map s))"
           "distinct (map snd (pool_map s))"
    unfolding pool_inv_def by blast+
  have 1: "\<forall>n chid. map_of (pool_map s) n = Some chid \<longrightarrow> map_of (bidir_pool s) chid \<noteq> None"
  proof (intro allI impI)
    fix n chid assume "map_of (pool_map s) n = Some chid"
    then have "chid \<in> snd ` set (pool_map s)" by (rule map_of_Some_val)
    with V have "chid \<in> fst ` set (bidir_pool s)" by blast
    then show "map_of (bidir_pool s) chid \<noteq> None" by (simp add: map_of_eq_None_iff)
  qed
  have 2: "length (pool_map s) \<le> length (bidir_pool s)"
    using D(3) D(1) V by (rule vals_card_le)
  show ?thesis using 1 2 D by simp
qed


theorem number_map_within_pool_witness:
  "reachable (snd (NodeB_channel poolable_type False 7 NodeB_init))
   \<and> pool_map (snd (NodeB_channel poolable_type False 7 NodeB_init)) = [(7, 0)]
   \<and> bidir_pool (snd (NodeB_channel poolable_type False 7 NodeB_init)) = [(0, 0)]
   \<and> length (pool_map (snd (NodeB_channel poolable_type False 7 NodeB_init)))
       \<le> length (bidir_pool (snd (NodeB_channel poolable_type False 7 NodeB_init)))"
proof -
  let ?s = "snd (NodeB_channel poolable_type False 7 NodeB_init)"
  have r: "reachable ?s"
    by (rule reachable.acquire [OF reachable.init]) (rule prod.collapse [symmetric])
  have e: "pool_map ?s = [(7, 0)]" "bidir_pool ?s = [(0, 0)]"
    by (simp_all add: NodeB_channel_def NodeB_init_def IDPool_init_def get_id_def
          new_channel_def poolable_type_def Let_def)
  from number_map_within_pool [OF r] r e show ?thesis by simp
qed

section \<open>Releasing a channel twice\<close>

text \<open>A first acquisition of a poolable channel, to which the transport gives number 7.\<close>

lemma acquire_from_init:
  "NodeB_channel poolable_type False 7 NodeB_init
   = (Inr 0, \<lparr> pool = \<lparr> ids_free = [], ids_inuse = [0], minted = 1 \<rparr>,
        bidir_pool = [(0, 0)], pool_map = [(7, 0)],
        heap = [\<lparr> queue_auto_delete = False, channel_number = 7 \<rparr>],
        effects = [CreateCallback, TransportOpen] \<rparr>)"
  by (simp add: NodeB_channel_def NodeB_init_def IDPool_init_def get_id_def new_channel_def
        poolable_type_def Let_def)

text \<open>
  Claim C3 says that the second release of the same channel is rejected as an
  internal-consistency error.  It is not: a pooled channel is acquired and released, and
  the second release returns normally, after \<open>close_impl\<close> on the channel.
\<close>

theorem release_twice_counterexample:
  "fst (NodeB_on_channel_request_close 0 (snd (NodeB_channel poolable_type False 7 NodeB_init)))
     = Inr ()
   \<and> fst (NodeB_on_channel_request_close 0
          (snd (NodeB_on_channel_request_close 0
             (snd (NodeB_channel poolable_type False 7 NodeB_init)))))
     = Inr ()
   \<and> effects (snd (NodeB_on_channel_request_close 0
          (snd (NodeB_on_channel_request_close 0
             (snd (NodeB_channel poolable_type False 7 NodeB_init))))))
     = [CreateCallback, TransportOpen, StopConsume 0, CloseImpl 0]
   \<and> fst (NodeB_on_channel_request_close 0
          (snd (NodeB_on_channel_request_close 0
             (snd (NodeB_channel poolable_type False 7 NodeB_init)))))
     \<noteq> Inl AssertionError"
  by (simp add: acquire_from_init NodeB_on_channel_request_close_def release_id_def Let_def)

text \<open>
  Claim C3, amended.  Whatever the first release of a channel did, a second release of the
  same channel is not rejected: the channel's number is not in the number map any more (or
  never was), so the release takes the untracked branch, calls \<open>close_impl\<close> on the
  channel and returns normally; the identifier pool, both dicts and the channel objects
  stay as they were.
\<close>

theorem second_release_closes_transport:
  assumes "NodeB_on_channel_request_close ch s = (r, s1)"
  shows "NodeB_on_channel_request_close ch s1
           = (Inr (), s1\<lparr> effects := effects s1 @ [CloseImpl ch] \<rparr>)"
proof -
  have h: "heap s1 = heap s"
    using assms
    by (auto simp: NodeB_on_channel_request_close_def Let_def
             split: option.splits sum.splits if_splits)
  have "map_of (pool_map s1) (channel_number (heap s ! ch)) = None"
  proof (cases "map_of (pool_map s) (channel_number (heap s ! ch))")
    case None
    with assms show ?thesis by (auto simp: NodeB_on_channel_request_close_def)
  next
    case (Some chid)
    with assms have "pool_map s1 = AList.delete (channel_number (heap s ! ch)) (pool_map s)"
      by (auto simp: NodeB_on_channel_request_close_def Let_def
               split: option.splits sum.splits if_splits)
    then show ?thesis by (simp add: AList.delete_conv')
  qed
  with h show ?thesis by (simp add: NodeB_on_channel_request_close_def)
qed

theorem second_release_closes_transport_witness:
  "NodeB_on_channel_request_close 0
     (snd (NodeB_on_channel_request_close 0 (snd (NodeB_channel poolable_type False 7 NodeB_init))))
   = (Inr (),
      \<lparr> pool = \<lparr> ids_free = [0], ids_inuse = [], minted = 1 \<rparr>,
        bidir_pool = [(0, 0)], pool_map = [],
        heap = [\<lparr> queue_auto_delete = False, channel_number = 7 \<rparr>],
        effects = [CreateCallback, TransportOpen, StopConsume 0, CloseImpl 0] \<rparr>)"
  using second_release_closes_transport
          [of 0 "snd (NodeB_channel poolable_type False 7 NodeB_init)"
              "fst (NodeB_on_channel_request_close 0 (snd (NodeB_channel poolable_type False 7 NodeB_init)))"
              "snd (NodeB_on_channel_request_close 0 (snd (NodeB_channel poolable_type False 7 NodeB_init)))"]
  by (simp add: acquire_from_init NodeB_on_channel_request_close_def release_id_def Let_def)

section \<open>Well-formed states of the blocking node\<close>

lemma update_fresh_key: "k \<notin> fst ` set al \<Longrightarrow> AList.update k v al = al @ [(k, v)]"
  by (induction al) auto

lemma set_update_sub: "set (AList.update k v al) \<subseteq> insert (k, v) (set al)"
  by (induction al) auto

lemma set_delete_sub: "set (AList.delete k al) \<subseteq> set (al)"
  by (induction al) auto

lemma set_delete_eq: "set (AList.delete k al) = {p \<in> set al. fst p \<noteq> k}"
  by (induction al) auto

lemma vals_delete_eq:
  assumes "distinct (map fst al)" "distinct (map snd al)" "map_of al k = Some v"
  shows "snd ` set (AList.delete k al) = snd ` set al - {v}"
proof
  show "snd ` set (AList.delete k al) \<subseteq> snd ` set al - {v}"
    using vals_delete [of k al] vals_delete_notin [OF assms(2,3)] by blast
  show "snd ` set al - {v} \<subseteq> snd ` set (AList.delete k al)"
  proof
    fix x assume "x \<in> snd ` set al - {v}"
    then obtain k' where m: "(k', x) \<in> set al" and "x \<noteq> v" by auto
    have "k' \<noteq> k"
    proof
      assume "k' = k"
      with m assms(1) have "map_of al k = Some x" by simp
      with assms(3) \<open>x \<noteq> v\<close> show False by simp
    qed
    with m have "(k', x) \<in> set (AList.delete k al)" by (simp add: set_delete_eq)
    then show "x \<in> snd ` set (AList.delete k al)" by force
  qed
qed

lemma distinct_map_inj:
  "distinct (map f xs) \<Longrightarrow> x \<in> set xs \<Longrightarrow> y \<in> set xs \<Longrightarrow> f x = f y \<Longrightarrow> x = y"
  by (meson distinct_map inj_onD)

lemma node_inv_init: "node_inv NodeB_init"
  by (simp add: node_inv_def pool_inv_init cached_numbers_def)
     (simp add: NodeB_init_def IDPool_init_def)

text \<open>Under the invariant, the pool hands out a cached identifier exactly when one is inactive.\<close>

lemma get_id_inactive:
  assumes inv: "node_inv s" and g: "get_id (pool s) = (chid, p')"
    and ex: "fst ` set (bidir_pool s) - snd ` set (pool_map s) \<noteq> {}"
  shows "chid \<in> fst ` set (bidir_pool s)" "chid \<notin> snd ` set (pool_map s)"
    "p' = (pool s)\<lparr> ids_free := removeAll chid (ids_free (pool s)),
                    ids_inuse := chid # ids_inuse (pool s) \<rparr>"
    "chid \<in> set (ids_free (pool s))"
proof -
  have F: "set (ids_free (pool s)) = fst ` set (bidir_pool s) - snd ` set (pool_map s)"
    using inv unfolding node_inv_def by blast
  with ex have ne: "ids_free (pool s) \<noteq> []" by auto
  then have "Min (set (ids_free (pool s))) \<in> set (ids_free (pool s))" by (intro Min_in) auto
  moreover from g ne have c: "chid = Min (set (ids_free (pool s)))"
    by (auto simp: get_id_def Let_def)
  ultimately show m: "chid \<in> set (ids_free (pool s))" by simp
  with F show "chid \<in> fst ` set (bidir_pool s)" "chid \<notin> snd ` set (pool_map s)" by auto
  from g ne c show "p' = (pool s)\<lparr> ids_free := removeAll chid (ids_free (pool s)),
                    ids_inuse := chid # ids_inuse (pool s) \<rparr>"
    by (auto simp: get_id_def Let_def)
qed

lemma get_id_minted:
  assumes inv: "node_inv s" and g: "get_id (pool s) = (chid, p')"
    and ex: "fst ` set (bidir_pool s) - snd ` set (pool_map s) = {}"
  shows "chid \<notin> fst ` set (bidir_pool s)" "chid \<notin> snd ` set (pool_map s)"
    "p' = (pool s)\<lparr> ids_inuse := chid # ids_inuse (pool s), minted := Suc (minted (pool s)) \<rparr>"
    "chid = minted (pool s)" "ids_free (pool s) = []"
proof -
  have F: "set (ids_free (pool s)) = fst ` set (bidir_pool s) - snd ` set (pool_map s)"
    and P: "pool_inv s"
    using inv unfolding node_inv_def by blast+
  from F ex show e: "ids_free (pool s) = []" by simp
  with g show c: "chid = minted (pool s)" by (auto simp: get_id_def Let_def)
  from g e show "p' = (pool s)\<lparr> ids_inuse := chid # ids_inuse (pool s), minted := Suc (minted (pool s)) \<rparr>"
    by (auto simp: get_id_def Let_def)
  have B: "\<forall>i \<in> fst ` set (bidir_pool s). i < minted (pool s)"
    and V: "snd ` set (pool_map s) \<subseteq> fst ` set (bidir_pool s)"
    using P unfolding pool_inv_def by blast+
  from B c show k: "chid \<notin> fst ` set (bidir_pool s)" by (metis less_irrefl)
  with V show "chid \<notin> snd ` set (pool_map s)" by blast
qed


lemma channel_reuse:
  assumes inv: "node_inv s" and p: "poolable ch_type" and ex: "cached_inactive s c0 ch0"
  shows "\<exists>chid ch. cached_inactive s chid ch
           \<and> NodeB_channel ch_type a n s =
               (Inr ch, s\<lparr> pool := snd (get_id (pool s)),
                          pool_map := AList.update (channel_number (heap s ! ch)) chid (pool_map s) \<rparr>)
           \<and> chid \<in> set (ids_inuse (snd (get_id (pool s))))
           \<and> snd (get_id (pool s)) =
                 (pool s)\<lparr> ids_free := removeAll chid (ids_free (pool s)),
                            ids_inuse := chid # ids_inuse (pool s) \<rparr>"
proof -
  obtain chid p' where g: "get_id (pool s) = (chid, p')" by (cases "get_id (pool s)")
  from ex have "c0 \<in> fst ` set (bidir_pool s) - snd ` set (pool_map s)"
    by (auto simp: cached_inactive_def dest: map_of_Some_key)
  then have ne: "fst ` set (bidir_pool s) - snd ` set (pool_map s) \<noteq> {}" by blast
  note i = get_id_inactive [OF inv g ne]
  from i(1) obtain ch where ch: "map_of (bidir_pool s) chid = Some ch"
    by (metis domD dom_map_of_conv_image_fst)
  then have mem: "(chid, ch) \<in> set (bidir_pool s)" by (rule map_of_SomeD)
  have N3: "distinct (cached_numbers s)"
    and N4: "\<forall>p \<in> set (pool_map s).
         \<exists>ch. (snd p, ch) \<in> set (bidir_pool s) \<and> channel_number (heap s ! ch) = fst p"
    using inv unfolding node_inv_def by blast+
  have newkey: "channel_number (heap s ! ch) \<notin> fst ` set (pool_map s)"
  proof
    assume "channel_number (heap s ! ch) \<in> fst ` set (pool_map s)"
    then obtain c where c: "(channel_number (heap s ! ch), c) \<in> set (pool_map s)" by force
    with N4 obtain ch' where ch': "(c, ch') \<in> set (bidir_pool s)"
      "channel_number (heap s ! ch') = channel_number (heap s ! ch)" by force
    from N3 have "distinct (map (\<lambda>p. channel_number (heap s ! snd p)) (bidir_pool s))"
      by (simp add: cached_numbers_def)
    from distinct_map_inj [OF this ch'(1) mem] ch'(2) have "c = chid" by simp
    with c have "chid \<in> snd ` set (pool_map s)" by force
    with i(2) show False by simp
  qed
  have run: "NodeB_channel ch_type a n s =
               (Inr ch, s\<lparr> pool := p',
                          pool_map := AList.update (channel_number (heap s ! ch)) chid (pool_map s) \<rparr>)"
    using p g ch i(2) newkey
    by (simp add: NodeB_channel_def poolable_def Let_def)
  have "chid \<in> set (ids_inuse p')" using i(3) by simp
  with run ch i(2,3) g show ?thesis
    by (auto simp: cached_inactive_def)
qed

lemma channel_create_poolable:
  assumes inv: "node_inv s" and p: "poolable ch_type"
    and no: "\<forall>c ch. \<not> cached_inactive s c ch"
  shows "NodeB_channel ch_type a n s =
           (Inr (length (heap s)),
            s\<lparr> pool := (pool s)\<lparr> ids_inuse := minted (pool s) # ids_inuse (pool s),
                                 minted := Suc (minted (pool s)) \<rparr>,
               heap := heap s @ [\<lparr> queue_auto_delete = a, channel_number = n \<rparr>],
               effects := effects s @ [CreateCallback, TransportOpen],
               bidir_pool := bidir_pool s @ [(minted (pool s), length (heap s))],
               pool_map := AList.update n (minted (pool s)) (pool_map s) \<rparr>)"
    and "minted (pool s) \<notin> fst ` set (bidir_pool s) \<union> set (ids_inuse (pool s)) \<union> set (ids_free (pool s))"
proof -
  obtain chid p' where g: "get_id (pool s) = (chid, p')" by (cases "get_id (pool s)")
  have e: "fst ` set (bidir_pool s) - snd ` set (pool_map s) = {}"
  proof (rule ccontr)
    assume "fst ` set (bidir_pool s) - snd ` set (pool_map s) \<noteq> {}"
    then obtain c where c: "c \<in> fst ` set (bidir_pool s)" "c \<notin> snd ` set (pool_map s)" by blast
    then obtain ch where "map_of (bidir_pool s) c = Some ch"
      by (metis domD dom_map_of_conv_image_fst)
    with c(2) no show False by (simp add: cached_inactive_def)
  qed
  note m = get_id_minted [OF inv g e]
  from m(1) have none: "map_of (bidir_pool s) chid = None" by (simp add: map_of_eq_None_iff)
  show "NodeB_channel ch_type a n s =
           (Inr (length (heap s)),
            s\<lparr> pool := (pool s)\<lparr> ids_inuse := minted (pool s) # ids_inuse (pool s),
                                 minted := Suc (minted (pool s)) \<rparr>,
               heap := heap s @ [\<lparr> queue_auto_delete = a, channel_number = n \<rparr>],
               effects := effects s @ [CreateCallback, TransportOpen],
               bidir_pool := bidir_pool s @ [(minted (pool s), length (heap s))],
               pool_map := AList.update n (minted (pool s)) (pool_map s) \<rparr>)"
    using p g none m(1,3,4)
    by (simp add: NodeB_channel_def poolable_def Let_def new_channel_def update_fresh_key)
  have "pool_inv s" using inv unfolding node_inv_def by blast
  then have "\<forall>i \<in> set (ids_free (pool s)) \<union> set (ids_inuse (pool s)) \<union> fst ` set (bidir_pool s).
          i < minted (pool s)"
    unfolding pool_inv_def by blast
  then show "minted (pool s) \<notin> fst ` set (bidir_pool s) \<union> set (ids_inuse (pool s)) \<union> set (ids_free (pool s))"
    by (metis Un_iff less_irrefl)
qed

lemma channel_create_plain:
  assumes "\<not> poolable ch_type"
  shows "NodeB_channel ch_type a n s =
           (Inr (length (heap s)),
            s\<lparr> heap := heap s @ [\<lparr> queue_auto_delete = a, channel_number = n \<rparr>],
               effects := effects s @ [CreateCallback, TransportOpen] \<rparr>)"
  using assms by (auto simp: NodeB_channel_def poolable_def new_channel_def)


lemma node_invD:
  assumes "node_inv s"
  shows "pool_inv s"
    and "snd ` set (bidir_pool s) \<subseteq> {..< length (heap s)}"
    and "distinct (map (\<lambda>p. channel_number (heap s ! snd p)) (bidir_pool s))"
    and "\<forall>p \<in> set (pool_map s).
           \<exists>ch. (snd p, ch) \<in> set (bidir_pool s) \<and> channel_number (heap s ! ch) = fst p"
    and "set (ids_free (pool s)) = fst ` set (bidir_pool s) - snd ` set (pool_map s)"
  using assms unfolding node_inv_def cached_numbers_def by blast+

lemma node_invI:
  assumes "pool_inv s"
    and "snd ` set (bidir_pool s) \<subseteq> {..< length (heap s)}"
    and "distinct (map (\<lambda>p. channel_number (heap s ! snd p)) (bidir_pool s))"
    and "\<forall>p \<in> set (pool_map s).
           \<exists>ch. (snd p, ch) \<in> set (bidir_pool s) \<and> channel_number (heap s ! ch) = fst p"
    and "set (ids_free (pool s)) = fst ` set (bidir_pool s) - snd ` set (pool_map s)"
  shows "node_inv s"
  using assms unfolding node_inv_def cached_numbers_def by blast

lemma tracked_numbers_cached:
  assumes "node_inv s"
  shows "fst ` set (pool_map s) \<subseteq> set (cached_numbers s)"
proof
  fix n assume "n \<in> fst ` set (pool_map s)"
  then obtain p where p: "p \<in> set (pool_map s)" "fst p = n" by auto
  with node_invD(4) [OF assms] obtain ch where
    "(snd p, ch) \<in> set (bidir_pool s)" "channel_number (heap s ! ch) = n" by force
  then show "n \<in> set (cached_numbers s)"
    unfolding cached_numbers_def by force
qed

lemma inactive_number_untracked:
  assumes inv: "node_inv s" and mem: "(chid, ch) \<in> set (bidir_pool s)"
    and ina: "chid \<notin> snd ` set (pool_map s)"
  shows "channel_number (heap s ! ch) \<notin> fst ` set (pool_map s)"
proof
  assume "channel_number (heap s ! ch) \<in> fst ` set (pool_map s)"
  then obtain c where c: "(channel_number (heap s ! ch), c) \<in> set (pool_map s)" by force
  with node_invD(4) [OF inv] obtain ch' where ch': "(c, ch') \<in> set (bidir_pool s)"
    "channel_number (heap s ! ch') = channel_number (heap s ! ch)" by force
  from distinct_map_inj [OF node_invD(3) [OF inv] ch'(1) mem] ch'(2) have "c = chid" by simp
  with c have "chid \<in> snd ` set (pool_map s)" by force
  with ina show False by simp
qed

lemma numbers_heap_append:
  assumes "snd ` set bp \<subseteq> {..< length h}"
  shows "map (\<lambda>p. channel_number ((h @ [x]) ! snd p)) bp = map (\<lambda>p. channel_number (h ! snd p)) bp"
  using assms by (auto simp: nth_append)

lemma node_inv_heap_append:
  assumes inv: "node_inv s"
  shows "node_inv (s\<lparr> heap := heap s @ [x], effects := e \<rparr>)"
proof (rule node_invI)
  show "pool_inv (s\<lparr> heap := heap s @ [x], effects := e \<rparr>)"
    using node_invD(1) [OF inv] by (simp add: pool_inv_def)
  show "snd ` set (bidir_pool (s\<lparr> heap := heap s @ [x], effects := e \<rparr>))
          \<subseteq> {..< length (heap (s\<lparr> heap := heap s @ [x], effects := e \<rparr>))}"
    using node_invD(2) [OF inv] by auto
  show "distinct (map (\<lambda>p. channel_number (heap (s\<lparr> heap := heap s @ [x], effects := e \<rparr>) ! snd p))
           (bidir_pool (s\<lparr> heap := heap s @ [x], effects := e \<rparr>)))"
    using node_invD(3) [OF inv] by (simp add: numbers_heap_append [OF node_invD(2) [OF inv]])
  show "\<forall>p \<in> set (pool_map (s\<lparr> heap := heap s @ [x], effects := e \<rparr>)).
           \<exists>ch. (snd p, ch) \<in> set (bidir_pool (s\<lparr> heap := heap s @ [x], effects := e \<rparr>))
              \<and> channel_number (heap (s\<lparr> heap := heap s @ [x], effects := e \<rparr>) ! ch) = fst p"
  proof
    fix p assume "p \<in> set (pool_map (s\<lparr> heap := heap s @ [x], effects := e \<rparr>))"
    then have "p \<in> set (pool_map s)" by simp
    with node_invD(4) [OF inv] obtain ch where ch: "(snd p, ch) \<in> set (bidir_pool s)"
      "channel_number (heap s ! ch) = fst p" by blast
    from ch(1) node_invD(2) [OF inv] have "ch < length (heap s)" by force
    with ch show "\<exists>ch. (snd p, ch) \<in> set (bidir_pool (s\<lparr> heap := heap s @ [x], effects := e \<rparr>))
              \<and> channel_number (heap (s\<lparr> heap := heap s @ [x], effects := e \<rparr>) ! ch) = fst p"
      by (auto simp: nth_append)
  qed
  show "set (ids_free (pool (s\<lparr> heap := heap s @ [x], effects := e \<rparr>)))
          = fst ` set (bidir_pool (s\<lparr> heap := heap s @ [x], effects := e \<rparr>))
            - snd ` set (pool_map (s\<lparr> heap := heap s @ [x], effects := e \<rparr>))"
    using node_invD(5) [OF inv] by simp
qed

lemma node_inv_flip: "node_inv s \<Longrightarrow> node_inv (set_queue_auto_delete ch b s)"
proof -
  assume inv: "node_inv s"
  have num: "\<And>r. channel_number ((heap s)[ch := (heap s ! ch)\<lparr> queue_auto_delete := b \<rparr>] ! r)
                 = channel_number (heap s ! r)"
    by (metis channel_obj.select_convs(2) channel_obj.surjective channel_obj.update_convs(1)
          list_update_beyond list_update_id not_le nth_list_update_eq nth_list_update_neq)
  show ?thesis
  proof (rule node_invI)
    show "pool_inv (set_queue_auto_delete ch b s)"
      using node_invD(1) [OF inv] by (simp add: pool_inv_flip)
  qed (use node_invD(2-5) [OF inv] in \<open>simp_all add: set_queue_auto_delete_def num\<close>)
qed


lemma vals_append_one: "snd ` set (al @ [(k, v)]) = insert v (snd ` set al)"
  by auto

lemma node_inv_channel:
  assumes inv: "node_inv s"
    and num: "n \<notin> set (cached_numbers s)"
    and run: "NodeB_channel ch_type a n s = (r, s')"
  shows "node_inv s'"
proof (cases "poolable ch_type")
  case False
  from channel_create_plain [OF False, of a n s] run
  have "s' = s\<lparr> heap := heap s @ [\<lparr> queue_auto_delete = a, channel_number = n \<rparr>],
               effects := effects s @ [CreateCallback, TransportOpen] \<rparr>" by simp
  then show ?thesis using node_inv_heap_append [OF inv] by simp
next
  case True
  have P': "pool_inv s'" using node_invD(1) [OF inv] run by (rule pool_inv_channel)
  show ?thesis
  proof (cases "\<exists>c ch. cached_inactive s c ch")
    case True
    then obtain c0 ch0 where ex: "cached_inactive s c0 ch0" by blast
    from channel_reuse [OF inv \<open>poolable ch_type\<close> ex, of a n]
    obtain chid ch where ci: "cached_inactive s chid ch"
      and run': "NodeB_channel ch_type a n s = (Inr ch, s\<lparr> pool := snd (get_id (pool s)),
                pool_map := AList.update (channel_number (heap s ! ch)) chid (pool_map s) \<rparr>)"
      and g: "snd (get_id (pool s)) =
                 (pool s)\<lparr> ids_free := removeAll chid (ids_free (pool s)),
                            ids_inuse := chid # ids_inuse (pool s) \<rparr>"
      by blast
    from run run' have s': "s' = s\<lparr> pool := snd (get_id (pool s)),
                pool_map := AList.update (channel_number (heap s ! ch)) chid (pool_map s) \<rparr>"
      by simp
    have mem: "(chid, ch) \<in> set (bidir_pool s)" and ina: "chid \<notin> snd ` set (pool_map s)"
      using ci by (auto simp: cached_inactive_def dest: map_of_SomeD)
    have newkey: "channel_number (heap s ! ch) \<notin> fst ` set (pool_map s)"
      using inv mem ina by (rule inactive_number_untracked)
    have pm: "pool_map s' = pool_map s @ [(channel_number (heap s ! ch), chid)]"
      using s' newkey by (simp add: update_fresh_key)
    have fr: "set (ids_free (pool s')) = set (ids_free (pool s)) - {chid}"
      using s' g by simp
    show ?thesis
    proof (rule node_invI [OF P'])
      show "snd ` set (bidir_pool s') \<subseteq> {..< length (heap s')}"
        using node_invD(2) [OF inv] s' by simp
      show "distinct (map (\<lambda>p. channel_number (heap s' ! snd p)) (bidir_pool s'))"
        using node_invD(3) [OF inv] s' by simp
      show "\<forall>p \<in> set (pool_map s').
           \<exists>ch. (snd p, ch) \<in> set (bidir_pool s') \<and> channel_number (heap s' ! ch) = fst p"
      proof
        fix p assume "p \<in> set (pool_map s')"
        then have "p = (channel_number (heap s ! ch), chid) \<or> p \<in> set (pool_map s)"
          using pm by auto
        then show "\<exists>ch. (snd p, ch) \<in> set (bidir_pool s') \<and> channel_number (heap s' ! ch) = fst p"
        proof
          assume "p = (channel_number (heap s ! ch), chid)"
          with mem s' show ?thesis by auto
        next
          assume "p \<in> set (pool_map s)"
          with node_invD(4) [OF inv] s' show ?thesis by simp
        qed
      qed
      have "snd ` set (pool_map s') = insert chid (snd ` set (pool_map s))"
        unfolding pm by (rule vals_append_one)
      moreover have "bidir_pool s' = bidir_pool s" using s' by simp
      ultimately show "set (ids_free (pool s')) = fst ` set (bidir_pool s') - snd ` set (pool_map s')"
        using fr node_invD(5) [OF inv] by auto
    qed
  next
    case False
    then have no: "\<forall>c ch. \<not> cached_inactive s c ch" by blast
    note c = channel_create_poolable(1) [OF inv \<open>poolable ch_type\<close> no, of a n]
      channel_create_poolable(2) [OF inv \<open>poolable ch_type\<close> no]
    let ?x = "\<lparr> queue_auto_delete = a, channel_number = n \<rparr>"
    let ?m = "minted (pool s)"
    from c(1) run have h: "heap s' = heap s @ [?x]"
      and bp: "bidir_pool s' = bidir_pool s @ [(?m, length (heap s))]"
      and pm0: "pool_map s' = AList.update n ?m (pool_map s)"
      and fr: "ids_free (pool s') = ids_free (pool s)"
      by auto
    have "n \<notin> fst ` set (pool_map s)" using tracked_numbers_cached [OF inv] num by blast
    with pm0 have pm: "pool_map s' = pool_map s @ [(n, ?m)]" by (simp add: update_fresh_key)
    have valid: "snd ` set (bidir_pool s) \<subseteq> {..< length (heap s)}" by (rule node_invD(2) [OF inv])
    show ?thesis
    proof (rule node_invI [OF P'])
      show "snd ` set (bidir_pool s') \<subseteq> {..< length (heap s')}"
        using valid h bp by auto
      have "map (\<lambda>p. channel_number (heap s' ! snd p)) (bidir_pool s')
              = cached_numbers s @ [n]"
        using numbers_heap_append [OF valid, of ?x] h bp by (simp add: cached_numbers_def)
      then show "distinct (map (\<lambda>p. channel_number (heap s' ! snd p)) (bidir_pool s'))"
        using node_invD(3) [OF inv] num by (simp add: cached_numbers_def)
      show "\<forall>p \<in> set (pool_map s').
           \<exists>ch. (snd p, ch) \<in> set (bidir_pool s') \<and> channel_number (heap s' ! ch) = fst p"
      proof
        fix p assume "p \<in> set (pool_map s')"
        then have "p = (n, ?m) \<or> p \<in> set (pool_map s)" using pm by auto
        then show "\<exists>ch. (snd p, ch) \<in> set (bidir_pool s') \<and> channel_number (heap s' ! ch) = fst p"
        proof
          assume "p = (n, ?m)"
          then show ?thesis using h bp by (intro exI [of _ "length (heap s)"]) simp
        next
          assume "p \<in> set (pool_map s)"
          with node_invD(4) [OF inv] obtain ch where ch: "(snd p, ch) \<in> set (bidir_pool s)"
            "channel_number (heap s ! ch) = fst p" by blast
          from ch(1) valid have "ch < length (heap s)" by force
          with ch h bp show ?thesis by (intro exI [of _ ch]) (simp add: nth_append)
        qed
      qed
      have e: "fst ` set (bidir_pool s) - snd ` set (pool_map s) = {}"
      proof (rule ccontr)
        assume "fst ` set (bidir_pool s) - snd ` set (pool_map s) \<noteq> {}"
        then obtain c where c: "c \<in> fst ` set (bidir_pool s)" "c \<notin> snd ` set (pool_map s)" by blast
        then obtain ch where "map_of (bidir_pool s) c = Some ch"
          by (metis domD dom_map_of_conv_image_fst)
        with c(2) no show False by (simp add: cached_inactive_def)
      qed
      have "snd ` set (pool_map s') = insert ?m (snd ` set (pool_map s))"
        unfolding pm by (rule vals_append_one)
      moreover have "fst ` set (bidir_pool s') = insert ?m (fst ` set (bidir_pool s))"
        unfolding bp by auto
      ultimately show "set (ids_free (pool s')) = fst ` set (bidir_pool s') - snd ` set (pool_map s')"
        using fr node_invD(5) [OF inv] e by auto
    qed
  qed
qed


text \<open>The release of a tracked channel, step by step, in a well-formed state.\<close>

lemma release_tracked:
  assumes inv: "node_inv s"
    and tr: "map_of (pool_map s) (channel_number (heap s ! ch)) = Some chid"
  shows "NodeB_on_channel_request_close ch s =
          (Inr (),
           if queue_auto_delete (heap s ! ch) then
             s\<lparr> effects := effects s @ [StopConsume ch, LogWarn auto_delete_warning],
                pool_map := AList.delete (channel_number (heap s ! ch)) (pool_map s),
                bidir_pool := AList.delete chid (bidir_pool s),
                pool := (pool s)\<lparr> ids_inuse := removeAll chid (ids_inuse (pool s)),
                                   ids_free := removeAll chid (ids_free (pool s)) \<rparr> \<rparr>
           else
             s\<lparr> effects := effects s @ [StopConsume ch],
                pool_map := AList.delete (channel_number (heap s ! ch)) (pool_map s),
                pool := (pool s)\<lparr> ids_inuse := removeAll chid (ids_inuse (pool s)),
                                   ids_free := chid # ids_free (pool s) \<rparr> \<rparr>)"
proof -
  have P: "pool_inv s" by (rule node_invD(1) [OF inv])
  then have V: "snd ` set (pool_map s) \<subseteq> fst ` set (bidir_pool s)"
    and U: "snd ` set (pool_map s) \<subseteq> set (ids_inuse (pool s))"
    unfolding pool_inv_def by blast+
  have val: "chid \<in> snd ` set (pool_map s)" using tr by (rule map_of_Some_val)
  then have inuse: "chid \<in> set (ids_inuse (pool s))" and key: "chid \<in> fst ` set (bidir_pool s)"
    using U V by blast+
  obtain pooled where pooled: "map_of (bidir_pool s) chid = Some pooled"
    using key by (metis domD dom_map_of_conv_image_fst)
  have rel: "release_id (pool s) chid =
      Inr ((pool s)\<lparr> ids_inuse := removeAll chid (ids_inuse (pool s)),
                        ids_free := chid # ids_free (pool s) \<rparr>)"
    using inuse by (simp add: release_id_def)
  show ?thesis
    using tr rel pooled
    by (simp add: NodeB_on_channel_request_close_def Let_def)
qed

lemma node_inv_effects: "node_inv (s\<lparr> effects := e \<rparr>) = node_inv s"
  by (simp add: node_inv_def pool_inv_def cached_numbers_def)

lemma node_inv_release:
  assumes inv: "node_inv s"
    and run: "NodeB_on_channel_request_close ch s = (r, s')"
  shows "node_inv s'"
proof (cases "map_of (pool_map s) (channel_number (heap s ! ch))")
  case None
  with run have "s' = s\<lparr> effects := effects s @ [CloseImpl ch] \<rparr>"
    by (auto simp: NodeB_on_channel_request_close_def)
  with inv show ?thesis by (simp only: node_inv_effects)
next
  case (Some chid)
  let ?n = "channel_number (heap s ! ch)"
  have P': "pool_inv s'" using node_invD(1) [OF inv] run by (rule pool_inv_release)
  have P: "pool_inv s" by (rule node_invD(1) [OF inv])
  then have D: "distinct (map fst (pool_map s))" "distinct (map snd (pool_map s))"
    and V: "snd ` set (pool_map s) \<subseteq> fst ` set (bidir_pool s)"
    unfolding pool_inv_def by blast+
  have Vd: "snd ` set (AList.delete ?n (pool_map s)) = snd ` set (pool_map s) - {chid}"
    using D Some by (rule vals_delete_eq)
  have key: "chid \<in> fst ` set (bidir_pool s)"
    using V map_of_Some_val [OF Some] by blast
  note rt = release_tracked [OF inv Some]
  have N4: "\<forall>p \<in> set (AList.delete ?n (pool_map s)).
           \<exists>c. (snd p, c) \<in> set (bidir_pool s) \<and> channel_number (heap s ! c) = fst p"
    using node_invD(4) [OF inv] set_delete_sub [of ?n "pool_map s"] by blast
  show ?thesis
  proof (cases "queue_auto_delete (heap s ! ch)")
    case False
    with rt run have s': "s' = s\<lparr> effects := effects s @ [StopConsume ch],
                pool_map := AList.delete ?n (pool_map s),
                pool := (pool s)\<lparr> ids_inuse := removeAll chid (ids_inuse (pool s)),
                                   ids_free := chid # ids_free (pool s) \<rparr> \<rparr>"
      by simp
    show ?thesis
    proof (rule node_invI [OF P'])
      show "snd ` set (bidir_pool s') \<subseteq> {..< length (heap s')}"
        using node_invD(2) [OF inv] s' by simp
      show "distinct (map (\<lambda>p. channel_number (heap s' ! snd p)) (bidir_pool s'))"
        using node_invD(3) [OF inv] s' by simp
      show "\<forall>p \<in> set (pool_map s').
           \<exists>ch. (snd p, ch) \<in> set (bidir_pool s') \<and> channel_number (heap s' ! ch) = fst p"
        using N4 s' by simp
      have "set (ids_free (pool s')) = insert chid (set (ids_free (pool s)))"
        using s' by simp
      moreover have "snd ` set (pool_map s') = snd ` set (pool_map s) - {chid}"
        using s' Vd by simp
      moreover have "bidir_pool s' = bidir_pool s" using s' by simp
      ultimately show "set (ids_free (pool s')) = fst ` set (bidir_pool s') - snd ` set (pool_map s')"
        using node_invD(5) [OF inv] key by auto
    qed
  next
    case True
    with rt run have s': "s' = s\<lparr> effects := effects s @ [StopConsume ch, LogWarn auto_delete_warning],
                pool_map := AList.delete ?n (pool_map s),
                bidir_pool := AList.delete chid (bidir_pool s),
                pool := (pool s)\<lparr> ids_inuse := removeAll chid (ids_inuse (pool s)),
                                   ids_free := removeAll chid (ids_free (pool s)) \<rparr> \<rparr>"
      by simp
    show ?thesis
    proof (rule node_invI [OF P'])
      show "snd ` set (bidir_pool s') \<subseteq> {..< length (heap s')}"
        using node_invD(2) [OF inv] s' vals_delete [of chid "bidir_pool s"] by auto
      have "distinct (map (\<lambda>p. channel_number (heap s ! snd p))
              (filter (\<lambda>p. chid \<noteq> fst p) (bidir_pool s)))"
        using node_invD(3) [OF inv] by (rule distinct_map_filter)
      moreover have "AList.delete chid (bidir_pool s) = filter (\<lambda>p. chid \<noteq> fst p) (bidir_pool s)"
        by (simp add: AList.delete_eq case_prod_beta')
      ultimately show "distinct (map (\<lambda>p. channel_number (heap s' ! snd p)) (bidir_pool s'))"
        using s' by simp
      show "\<forall>p \<in> set (pool_map s').
           \<exists>ch. (snd p, ch) \<in> set (bidir_pool s') \<and> channel_number (heap s' ! ch) = fst p"
      proof
        fix p assume p: "p \<in> set (pool_map s')"
        then have p': "p \<in> set (AList.delete ?n (pool_map s))" using s' by simp
        with N4 obtain c where c: "(snd p, c) \<in> set (bidir_pool s)"
          "channel_number (heap s ! c) = fst p" by blast
        from p' Vd have "snd p \<noteq> chid" by force
        with c(1) have "(snd p, c) \<in> set (AList.delete chid (bidir_pool s))"
          by (simp add: set_delete_eq)
        with c(2) s' show "\<exists>ch. (snd p, ch) \<in> set (bidir_pool s') \<and> channel_number (heap s' ! ch) = fst p"
          by auto
      qed
      have "set (ids_free (pool s')) = set (ids_free (pool s)) - {chid}"
        using s' by simp
      moreover have "snd ` set (pool_map s') = snd ` set (pool_map s) - {chid}"
        using s' Vd by simp
      moreover have "fst ` set (bidir_pool s') = fst ` set (bidir_pool s) - {chid}"
        using s' by (simp add: keys_delete)
      ultimately show "set (ids_free (pool s')) = fst ` set (bidir_pool s') - snd ` set (pool_map s')"
        using node_invD(5) [OF inv] by auto
    qed
  qed
qed


lemma reachable_open_node_inv: "reachable_open s \<Longrightarrow> node_inv s"
proof (induction rule: reachable_open.induct)
  case init
  show ?case by (rule node_inv_init)
next
  case (acquire s amq_number ch_type cb_auto_delete r s')
  then show ?case by (blast intro: node_inv_channel)
next
  case (release s ch r s')
  then show ?case by (blast intro: node_inv_release)
next
  case (flip s ch b)
  then show ?case by (simp add: node_inv_flip)
qed



section \<open>Channel acquisition\<close>




section \<open>The poolability gate\<close>






section \<open>The non-blocking node\<close>

lemma start_channels_all:
  assumes "set ks \<subseteq> fst ` set (channels s)"
  shows "start_channels ks s =
           (Inr (), s\<lparr> client_channel_calls :=
                          client_channel_calls s @ map (\<lambda>k. the (map_of (channels s) k)) ks \<rparr>)"
  using assms
proof (induction ks arbitrary: s)
  case Nil
  then show ?case by simp
next
  case (Cons k ks)
  from Cons.prems have "k \<in> fst ` set (channels s)" by simp
  then obtain ch where ch: "map_of (channels s) k = Some ch"
    by (metis domD dom_map_of_conv_image_fst)
  let ?s' = "s\<lparr> client_channel_calls := client_channel_calls s @ [ch] \<rparr>"
  have "set ks \<subseteq> fst ` set (channels ?s')" using Cons.prems by simp
  from Cons.IH [OF this] ch show ?case by (simp add: start_channel_def)
qed

lemma map_the_map_of:
  "distinct (map fst al) \<Longrightarrow> map (\<lambda>k. the (map_of al k)) (map fst al) = map snd al"
  by (induction al) (auto simp: rev_image_eqI)

lemma start_node_run:
  assumes "distinct (map fst (channels s))"
  shows "NodeNB_start_node s =
           (Inr (), s\<lparr> running := True,
                       client_channel_calls := client_channel_calls s @ map snd (channels s) \<rparr>)"
proof -
  let ?s1 = "s\<lparr> running := True \<rparr>"
  have "set (map fst (channels ?s1)) \<subseteq> fst ` set (channels ?s1)" by simp
  from start_channels_all [OF this] map_the_map_of [OF assms]
  show ?thesis by (simp add: NodeNB_start_node_def Node_start_node_def)
qed

lemma channel_run:
  assumes "nb_inv s"
  shows "NodeNB_channel ch_type s =
           (Inr (length (objects s)),
            s\<lparr> objects := objects s @ [ch_type],
               id_pool := (id_pool s)\<lparr> ids_inuse := minted (id_pool s) # ids_inuse (id_pool s),
                                        minted := Suc (minted (id_pool s)) \<rparr>,
               channels := channels s @ [(minted (id_pool s), length (objects s))],
               client_channel_calls :=
                 (if running s then client_channel_calls s @ [length (objects s)]
                  else client_channel_calls s) \<rparr>)"
proof -
  have f: "ids_free (id_pool s) = []" and k: "map fst (channels s) = [0 ..< minted (id_pool s)]"
    using assms unfolding nb_inv_def by blast+
  have "fst ` set (channels s) = {0 ..< minted (id_pool s)}"
    using k by (metis set_map set_upt)
  then have nk: "minted (id_pool s) \<notin> fst ` set (channels s)" by simp
  then have none: "map_of (channels s) (minted (id_pool s)) = None"
    by (simp add: map_of_eq_None_iff)
  from nk have u: "AList.update (minted (id_pool s)) (length (objects s)) (channels s)
      = channels s @ [(minted (id_pool s), length (objects s))]"
    by (rule update_fresh_key)
  show ?thesis
    using f u none
    by (simp add: NodeNB_channel_def get_id_def Let_def start_channel_def map_add_def)
qed

lemma nb_inv_init: "nb_inv NodeNB_init"
  by (simp add: nb_inv_def NodeNB_init_def Node_running_def IDPool_init_def)

lemma nb_inv_channel:
  assumes "nb_inv s" "NodeNB_channel ch_type s = (r, s')"
  shows "nb_inv s'"
proof -
  from channel_run [OF assms(1), of ch_type] assms(2)
  have s': "s' = s\<lparr> objects := objects s @ [ch_type],
               id_pool := (id_pool s)\<lparr> ids_inuse := minted (id_pool s) # ids_inuse (id_pool s),
                                        minted := Suc (minted (id_pool s)) \<rparr>,
               channels := channels s @ [(minted (id_pool s), length (objects s))],
               client_channel_calls :=
                 (if running s then client_channel_calls s @ [length (objects s)]
                  else client_channel_calls s) \<rparr>" by simp
  show ?thesis
    using assms(1) unfolding nb_inv_def s' by (auto simp: lessThan_Suc)
qed

lemma nb_inv_start:
  assumes "nb_inv s" "NodeNB_start_node s = (r, s')"
  shows "nb_inv s'"
proof -
  have "distinct (map fst (channels s))" using assms(1) by (simp add: nb_inv_def)
  from start_node_run [OF this] assms(2)
  have "s' = s\<lparr> running := True,
                client_channel_calls := client_channel_calls s @ map snd (channels s) \<rparr>" by simp
  then show ?thesis using assms(1) by (simp add: nb_inv_def)
qed

lemma nb_reachable_inv: "nb_reachable s \<Longrightarrow> nb_inv s"
proof (induction rule: nb_reachable.induct)
  case init
  show ?case by (rule nb_inv_init)
next
  case (channel s ch_type r s')
  then show ?case by (blast intro: nb_inv_channel)
next
  case (start s r s')
  then show ?case by (blast intro: nb_inv_start)
qed

lemma nb_two_channels:
  "snd (NodeNB_channel (OtherChannel ''TestServer'')
      (snd (NodeNB_channel (OtherChannel ''TestServer'') NodeNB_init)))
   = \<lparr> channels = [(0, 0), (1, 1)],
       id_pool = \<lparr> ids_free = [], ids_inuse = [1, 0], minted = 2 \<rparr>,
       running = False,
       objects = [OtherChannel ''TestServer'', OtherChannel ''TestServer''],
       client_channel_calls = [] \<rparr>"
  by (simp add: NodeNB_channel_def NodeNB_init_def Node_running_def IDPool_init_def get_id_def Let_def)

lemma nb_two_channels_reachable:
  "nb_reachable \<lparr> channels = [(0, 0), (1, 1)],
       id_pool = \<lparr> ids_free = [], ids_inuse = [1, 0], minted = 2 \<rparr>,
       running = False,
       objects = [OtherChannel ''TestServer'', OtherChannel ''TestServer''],
       client_channel_calls = [] \<rparr>"
proof -
  have "nb_reachable (snd (NodeNB_channel (OtherChannel ''TestServer'') NodeNB_init))"
    by (rule nb_reachable.channel [OF nb_reachable.init]) (rule prod.collapse [symmetric])
  then have "nb_reachable (snd (NodeNB_channel (OtherChannel ''TestServer'')
      (snd (NodeNB_channel (OtherChannel ''TestServer'') NodeNB_init))))"
    by (rule nb_reachable.channel) (rule prod.collapse [symmetric])
  then show ?thesis by (simp only: nb_two_channels)
qed

lemma nb_started_reachable:
  "nb_reachable \<lparr> channels = [(0, 0), (1, 1)],
       id_pool = \<lparr> ids_free = [], ids_inuse = [1, 0], minted = 2 \<rparr>,
       running = True,
       objects = [OtherChannel ''TestServer'', OtherChannel ''TestServer''],
       client_channel_calls = [0, 1] \<rparr>"
proof -
  have "NodeNB_start_node \<lparr> channels = [(0, 0), (1, 1)],
       id_pool = \<lparr> ids_free = [], ids_inuse = [1, 0], minted = 2 \<rparr>,
       running = False,
       objects = [OtherChannel ''TestServer'', OtherChannel ''TestServer''],
       client_channel_calls = [] \<rparr>
    = (Inr (), \<lparr> channels = [(0, 0), (1, 1)],
       id_pool = \<lparr> ids_free = [], ids_inuse = [1, 0], minted = 2 \<rparr>,
       running = True,
       objects = [OtherChannel ''TestServer'', OtherChannel ''TestServer''],
       client_channel_calls = [0, 1] \<rparr>)"
    by (simp add: NodeNB_start_node_def Node_start_node_def start_channel_def)
  with nb_two_channels_reachable show ?thesis by (rule nb_reachable.start)
qed

text \<open>
  Claim C9.  In every state of the non-blocking node, \<open>channel(kind)\<close> creates the
  channel, allocates an identifier that was neither allocated nor in the registry, and
  stores the channel under it at the end of the registry; the channel is started within
  the call exactly when the node is running.  \<open>start_node\<close> marks the node running and
  starts every registered channel once, in the order of the identifiers.
\<close>

theorem nonblocking_channel_and_start:
  assumes "nb_reachable s"
  shows "(\<exists>ch_id. ch_id \<notin> fst ` set (channels s) \<and> ch_id \<notin> set (ids_inuse (id_pool s))
            \<and> ch_id \<in> set (ids_inuse (id_pool (snd (NodeNB_channel ch_type s))))
            \<and> fst (NodeNB_channel ch_type s) = Inr (length (objects s))
            \<and> objects (snd (NodeNB_channel ch_type s)) = objects s @ [ch_type]
            \<and> channels (snd (NodeNB_channel ch_type s)) = channels s @ [(ch_id, length (objects s))])
       \<and> client_channel_calls (snd (NodeNB_channel ch_type s))
           = (if running s then client_channel_calls s @ [length (objects s)]
              else client_channel_calls s)
       \<and> fst (NodeNB_start_node s) = Inr ()
       \<and> running (snd (NodeNB_start_node s))
       \<and> client_channel_calls (snd (NodeNB_start_node s))
           = client_channel_calls s @ map snd (sort_key fst (channels s))"
proof -
  have inv: "nb_inv s" using assms by (rule nb_reachable_inv)
  then have k: "map fst (channels s) = [0 ..< minted (id_pool s)]"
    and u: "set (ids_inuse (id_pool s)) = {..< minted (id_pool s)}"
    unfolding nb_inv_def by blast+
  have keys: "fst ` set (channels s) = {0 ..< minted (id_pool s)}"
    using k by (metis set_map set_upt)
  have d: "distinct (map fst (channels s))" and so: "sorted (map fst (channels s))"
    using k by simp_all
  have srt: "sort_key fst (channels s) = channels s"
    using so by (rule sort_key_id_if_sorted)
  note c = channel_run [OF inv, of ch_type]
  note st = start_node_run [OF d]
  have 1: "\<exists>ch_id. ch_id \<notin> fst ` set (channels s) \<and> ch_id \<notin> set (ids_inuse (id_pool s))
            \<and> ch_id \<in> set (ids_inuse (id_pool (snd (NodeNB_channel ch_type s))))
            \<and> fst (NodeNB_channel ch_type s) = Inr (length (objects s))
            \<and> objects (snd (NodeNB_channel ch_type s)) = objects s @ [ch_type]
            \<and> channels (snd (NodeNB_channel ch_type s)) = channels s @ [(ch_id, length (objects s))]"
    apply (rule exI [of _ "minted (id_pool s)"])
    using keys u by (simp add: c)
  have 2: "client_channel_calls (snd (NodeNB_channel ch_type s))
           = (if running s then client_channel_calls s @ [length (objects s)]
              else client_channel_calls s)"
    by (simp add: c)
  have 3: "fst (NodeNB_start_node s) = Inr ()" "running (snd (NodeNB_start_node s))"
    "client_channel_calls (snd (NodeNB_start_node s))
           = client_channel_calls s @ map snd (sort_key fst (channels s))"
    by (simp_all add: st srt)
  from 1 2 3 show ?thesis by blast
qed


theorem nonblocking_channel_and_start_witness:
  "NodeNB_start_node
     \<lparr> channels = [(0, 0), (1, 1)],
       id_pool = \<lparr> ids_free = [], ids_inuse = [1, 0], minted = 2 \<rparr>,
       running = False,
       objects = [OtherChannel ''TestServer'', OtherChannel ''TestServer''],
       client_channel_calls = [] \<rparr>
   = (Inr (),
      \<lparr> channels = [(0, 0), (1, 1)],
        id_pool = \<lparr> ids_free = [], ids_inuse = [1, 0], minted = 2 \<rparr>,
        running = True,
        objects = [OtherChannel ''TestServer'', OtherChannel ''TestServer''],
        client_channel_calls = [0, 1] \<rparr>)
   \<and> NodeNB_channel (OtherChannel ''TestClient'')
     \<lparr> channels = [(0, 0), (1, 1)],
       id_pool = \<lparr> ids_free = [], ids_inuse = [1, 0], minted = 2 \<rparr>,
       running = False,
       objects = [OtherChannel ''TestServer'', OtherChannel ''TestServer''],
       client_channel_calls = [] \<rparr>
   = (Inr 2,
      \<lparr> channels = [(0, 0), (1, 1), (2, 2)],
        id_pool = \<lparr> ids_free = [], ids_inuse = [2, 1, 0], minted = 3 \<rparr>,
        running = False,
        objects = [OtherChannel ''TestServer'', OtherChannel ''TestServer'', OtherChannel ''TestClient''],
        client_channel_calls = [] \<rparr>)
   \<and> NodeNB_channel (OtherChannel ''TestClient'')
     \<lparr> channels = [(0, 0), (1, 1)],
       id_pool = \<lparr> ids_free = [], ids_inuse = [1, 0], minted = 2 \<rparr>,
       running = True,
       objects = [OtherChannel ''TestServer'', OtherChannel ''TestServer''],
       client_channel_calls = [0, 1] \<rparr>
   = (Inr 2,
      \<lparr> channels = [(0, 0), (1, 1), (2, 2)],
        id_pool = \<lparr> ids_free = [], ids_inuse = [2, 1, 0], minted = 3 \<rparr>,
        running = True,
        objects = [OtherChannel ''TestServer'', OtherChannel ''TestServer'', OtherChannel ''TestClient''],
        client_channel_calls = [0, 1, 2] \<rparr>)"
  using nonblocking_channel_and_start [OF nb_two_channels_reachable, of "OtherChannel ''TestClient''"]
    nonblocking_channel_and_start [OF nb_started_reachable, of "OtherChannel ''TestClient''"]
  by (simp add: NodeNB_start_node_def Node_start_node_def start_channel_def
        NodeNB_channel_def get_id_def Let_def)

section \<open>Not found in the data store\<close>

text \<open>
  A query that returns no document, or that fails with the client library's
  \<open>ResourceNotFound\<close>, raises pyon's \<open>NotFound\<close>.
\<close>

lemma find_docs_empty_NotFound:
  "server self (if ds_name = [] then datastore_name self else ds_name) = Some db
   \<Longrightarrow> query db (map_fun criteria) = Inr [] \<or> query db (map_fun criteria) = Inl ResourceNotFound
   \<Longrightarrow> find_docs self query criteria ds_name = Inl NotFound"
  by (auto simp: find_docs_def server_getitem_def)

text \<open>No read ever raises \<open>NotFound\<close>, whatever the store holds.\<close>

lemma read_doc_never_NotFound: "read_doc self object_id rev_id ds_name \<noteq> Inl NotFound"
  by (simp add: read_doc_def server_getitem_def Let_def split: option.splits)

lemma CouchDB_read_never_NotFound: "CouchDB_read self object_id rev_id ds_name \<noteq> Inl NotFound"
  using read_doc_never_NotFound [of self object_id rev_id ds_name]
  by (auto simp: CouchDB_read_def split: sum.splits option.splits)

lemma read_absent_id:
  "server self (datastore_name self) = Some db \<Longrightarrow> heads db object_id = None
   \<Longrightarrow> read_doc self object_id [] [] = Inr None
       \<and> CouchDB_read self object_id [] [] = Inl TypeError
       \<and> get_event self object_id = Inl TypeError"
  by (simp add: get_event_def CouchDB_read_def read_doc_def server_getitem_def db_get_def)

text \<open>
  Claim C8 says that a read of an absent id surfaces the not-found condition.  On an
  existing, empty event store, \<open>read_doc\<close> of an absent id returns \<open>None\<close> without
  raising, and \<open>read\<close> and \<open>get_event\<close> then fail with \<open>TypeError\<close> on
  \<^verbatim>\<open>doc["type_"]\<close>; none of them raises \<open>NotFound\<close>.  A query of the same store that
  returns no row does raise \<open>NotFound\<close>.
\<close>

theorem read_absent_id_no_NotFound:
  "read_doc \<lparr> server = [''events'' \<mapsto> \<lparr> heads = Map.empty, revisions = Map.empty \<rparr>],
              datastore_name = ''events'' \<rparr> ''e1'' [] [] = Inr None
   \<and> CouchDB_read \<lparr> server = [''events'' \<mapsto> \<lparr> heads = Map.empty, revisions = Map.empty \<rparr>],
              datastore_name = ''events'' \<rparr> ''e1'' [] [] = Inl TypeError
   \<and> get_event \<lparr> server = [''events'' \<mapsto> \<lparr> heads = Map.empty, revisions = Map.empty \<rparr>],
              datastore_name = ''events'' \<rparr> ''e1'' = Inl TypeError
   \<and> get_event \<lparr> server = [''events'' \<mapsto> \<lparr> heads = Map.empty, revisions = Map.empty \<rparr>],
              datastore_name = ''events'' \<rparr> ''e1'' \<noteq> Inl NotFound
   \<and> find_docs \<lparr> server = [''events'' \<mapsto> \<lparr> heads = Map.empty, revisions = Map.empty \<rparr>],
              datastore_name = ''events'' \<rparr> (\<lambda>db f. Inr []) [] [] = Inl NotFound"
  by (simp add: get_event_def CouchDB_read_def read_doc_def server_getitem_def db_get_def
        find_docs_def)

end
